theory Spec2Isabelle
  imports Main
begin

section \<open>Values, the runtime and the standard library\<close>

text \<open>
  A Go value of type \<open>any\<close> that reaches the logger. Strings and ints (an \<open>int\<close> within
  Go's 64 bits) are formatted by the model below; every other dynamic type is opaque and
  formatted by the library.
\<close>

datatype any = AString string | AInt int | AOther nat

text \<open>The result of \<open>runtime.Caller(skip)\<close>: \<open>(pc, file, line, ok)\<close>.\<close>

record frame =
  pc :: nat
  srcfile :: string
  srcline :: int
  ok :: bool

text \<open>
  What one call sees of the Go runtime and of the parts of the standard library that
  are not written out here:
  \<^item> \<open>now\<close>: \<open>time.Now().Format("2006-01-02T15:04:05")\<close>;
  \<^item> \<open>environ\<close>: the process environment;
  \<^item> \<open>Caller\<close>, \<open>FuncForPC_Name\<close>: \<open>runtime.Caller\<close> and \<open>runtime.FuncForPC(pc).Name()\<close>;
  \<^item> \<open>mapiter\<close>: the order in which a \<open>range\<close> loop visits the entries of a map;
  \<^item> \<open>arg_other\<close>: \<open>fmt\<close>'s rendering of one operand under one verb, for the
    operand types and verbs not written out in \<open>printArg\<close>;
  \<^item> \<open>fmt_other\<close>: what \<open>fmt.Sprintf\<close> appends for the rest of a format, given all
    operands and the index of the next one, from a directive that is not written out in
    \<open>doPrintf\<close> on (flags, widths, argument indexes, missing or extra operands);
  \<^item> \<open>header_other\<close>: the line header of package \<open>log\<close> when its flags are not 0;
  \<^item> \<open>lower_other\<close>: \<open>strings.ToLower\<close> on a string with a byte outside ASCII
    (the Unicode path).
\<close>

record runtime =
  now :: string
  environ :: "string \<rightharpoonup> string"
  Caller :: "nat \<Rightarrow> frame"
  FuncForPC_Name :: "nat \<Rightarrow> string"
  mapiter :: "(string \<rightharpoonup> string) \<Rightarrow> (string \<times> string) list"
  arg_other :: "any \<Rightarrow> char \<Rightarrow> string"
  fmt_other :: "string \<Rightarrow> any list \<Rightarrow> nat \<Rightarrow> string"
  header_other :: "nat \<Rightarrow> string \<Rightarrow> string"
  lower_other :: "string \<Rightarrow> string"

subsection \<open>strings.ToLower and strings.Split\<close>

definition isASCII :: "string \<Rightarrow> bool" where
  "isASCII s = list_all (\<lambda>c. (of_char c :: nat) < 128) s"

definition lowerByte :: "char \<Rightarrow> char" where
  "lowerByte c =
     (let n = (of_char c :: nat) in if 65 \<le> n \<and> n \<le> 90 then char_of (n + 32) else c)"

text \<open>
  \<open>strings.ToLower\<close>: an ASCII-only string has its bytes \<open>'A'..'Z'\<close> moved to
  \<open>'a'..'z'\<close>; any other string goes through \<open>unicode.ToLower\<close> rune by rune.
\<close>

definition ToLower :: "runtime \<Rightarrow> string \<Rightarrow> string" where
  "ToLower rt s = (if isASCII s then map lowerByte s else lower_other rt s)"

text \<open>
  \<open>strings.Split(s, sep)\<close> for a one-byte separator: cut at the first occurrence,
  keep what precedes it, go on with what follows it; the rest is the last component.
\<close>

function Split :: "string \<Rightarrow> char \<Rightarrow> string list" where
  "Split s sep =
     (case dropWhile (\<lambda>c. c \<noteq> sep) s of
        [] \<Rightarrow> [s]
      | _ # rest \<Rightarrow> takeWhile (\<lambda>c. c \<noteq> sep) s # Split rest sep)"
  by pat_completeness auto
termination
proof (relation "measure (\<lambda>(s, sep). length s)")
  show "wf (measure (\<lambda>(s :: string, sep :: char). length s))"
    by simp
next
  fix s :: string and sep x rest
  assume "dropWhile (\<lambda>c. c \<noteq> sep) s = x # rest"
  then have "length (x # rest) \<le> length s"
    by (metis length_dropWhile_le)
  then show "((rest, sep), (s, sep)) \<in> measure (\<lambda>(s, sep). length s)"
    by simp
qed

declare Split.simps [simp del]

subsection \<open>fmt: verbs without flags\<close>

fun decimal :: "nat \<Rightarrow> string" where
  "decimal n =
     (if n < 10 then [char_of (48 + n)]
      else decimal (n div 10) @ [char_of (48 + n mod 10)])"

declare decimal.simps [simp del]

definition FormatInt :: "int \<Rightarrow> string" where
  "FormatInt i = (if i < 0 then CHR ''-'' # decimal (nat (- i)) else decimal (nat i))"

definition lowerhex :: "nat \<Rightarrow> char" where
  "lowerhex n = (if n < 10 then char_of (48 + n) else char_of (87 + n))"

text \<open>
  \<open>strconv.Quote\<close> on an ASCII string, byte by byte: the quote and the backslash are
  backslashed, printable bytes stand for themselves, the seven named control characters
  have their letter, any other control byte is \<open>\xNN\<close>. Runes outside ASCII need the
  Unicode tables and are left to the library (see \<open>printArg\<close>).
\<close>

definition escapeByte :: "char \<Rightarrow> string" where
  "escapeByte c =
     (let n = (of_char c :: nat) in
      if n = 34 \<or> n = 92 then [CHR 0x5C, c]
      else if 32 \<le> n \<and> n < 127 then [c]
      else if n = 7 then [CHR 0x5C, CHR ''a'']
      else if n = 8 then [CHR 0x5C, CHR ''b'']
      else if n = 12 then [CHR 0x5C, CHR ''f'']
      else if n = 10 then [CHR 0x5C, CHR ''n'']
      else if n = 13 then [CHR 0x5C, CHR ''r'']
      else if n = 9 then [CHR 0x5C, CHR ''t'']
      else if n = 11 then [CHR 0x5C, CHR ''v'']
      else [CHR 0x5C, CHR ''x'', lowerhex (n div 16), lowerhex (n mod 16)])"

definition Quote :: "string \<Rightarrow> string" where
  "Quote s = CHR 0x22 # concat (map escapeByte s) @ [CHR 0x22]"

text \<open>
  \<open>printArg\<close>: one operand under one verb. A string under \<open>%v\<close> or \<open>%s\<close> is itself,
  an ASCII string under \<open>%q\<close> is quoted, an int under \<open>%v\<close> or \<open>%d\<close> is in decimal.
\<close>

definition printArg :: "runtime \<Rightarrow> any \<Rightarrow> char \<Rightarrow> string" where
  "printArg rt a verb =
     (case a of
        AString s \<Rightarrow>
          if verb = CHR ''v'' \<or> verb = CHR ''s'' then s
          else if verb = CHR ''q'' \<and> isASCII s then Quote s
          else arg_other rt a verb
      | AInt i \<Rightarrow>
          if verb = CHR ''v'' \<or> verb = CHR ''d'' then FormatInt i
          else arg_other rt a verb
      | AOther t \<Rightarrow> arg_other rt a verb)"

definition isLowerVerb :: "char \<Rightarrow> bool" where
  "isLowerVerb c = (let n = (of_char c :: nat) in 97 \<le> n \<and> n \<le> 122)"

text \<open>
  \<open>doPrintf\<close>, with \<open>argNum\<close> the index of the next operand: text up to a \<open>%\<close> is
  copied; \<open>%\<close> followed by a lower-case letter, with an operand left, prints that
  operand (the fast path of \<open>fmt\<close>); \<open>%%\<close> is a percent sign. From the first directive
  that asks for something else (a flag, a width, an argument index, an upper-case verb,
  a \<open>%\<close> at the end, a missing operand) the library takes over, and so it does at the
  end of the format when operands are left over.
\<close>

fun doPrintf :: "runtime \<Rightarrow> string \<Rightarrow> any list \<Rightarrow> nat \<Rightarrow> string" where
  "doPrintf rt [] a argNum = (if argNum < length a then fmt_other rt [] a argNum else [])"
| "doPrintf rt (c # fs) a argNum =
     (if c \<noteq> CHR ''%'' then c # doPrintf rt fs a argNum
      else (case fs of
              [] \<Rightarrow> fmt_other rt (c # fs) a argNum
            | verb # fs' \<Rightarrow>
                if isLowerVerb verb \<and> argNum < length a then
                  printArg rt (a ! argNum) verb @ doPrintf rt fs' a (Suc argNum)
                else if verb = CHR ''%'' then CHR ''%'' # doPrintf rt fs' a argNum
                else fmt_other rt (c # fs) a argNum))"

definition Sprintf :: "runtime \<Rightarrow> string \<Rightarrow> any list \<Rightarrow> string" where
  "Sprintf rt format a = doPrintf rt format a 0"

subsection \<open>os: the environment\<close>

definition LookupEnv :: "runtime \<Rightarrow> string \<Rightarrow> string \<times> bool" where
  "LookupEnv rt key = (case environ rt key of None \<Rightarrow> ([], False) | Some v \<Rightarrow> (v, True))"

definition Getenv :: "runtime \<Rightarrow> string \<Rightarrow> string" where
  "Getenv rt key = (case environ rt key of None \<Rightarrow> [] | Some v \<Rightarrow> v)"

section \<open>The store: loggers and sinks\<close>

text \<open>
  A \<open>log.Logger\<close> of the standard library, the sink: its prefix, its flags and what it
  has written, one entry for each write to its stream.
\<close>

record log_Logger =
  prefix :: string
  flag :: nat
  out :: "string list"

record Level =
  val :: int
  name :: string

text \<open>The struct \<open>Logger\<close>; \<open>sink\<close> is the embedded \<open>*log.Logger\<close>, an address.\<close>

record Logger =
  Level :: Level
  sink :: nat
  contextMessage :: string

text \<open>
  Loggers and sinks live at addresses, since the methods take \<open>*Logger\<close> and every
  logger holds a pointer to a sink that others may hold too. \<open>nextp\<close> is the next free
  logger address: the allocated loggers are those below it. Every address holds a value:
  nil pointers are not part of the model.
\<close>

record heap =
  loggers :: "nat \<Rightarrow> Logger"
  nextp :: nat
  sinks :: "nat \<Rightarrow> log_Logger"

definition ErrorLevel :: Level where
  "ErrorLevel = \<lparr>val = 0, name = ''ERROR''\<rparr>"

definition InfoLevel :: Level where
  "InfoLevel = \<lparr>val = 1, name = ''INFO''\<rparr>"

definition DebugLevel :: Level where
  "DebugLevel = \<lparr>val = 2, name = ''DEBUG''\<rparr>"

subsection \<open>Package log\<close>

text \<open>The address of the logger that \<open>log.Default()\<close> returns.\<close>

definition log_Default :: nat where
  "log_Default = 0"

definition SetFlags :: "heap \<Rightarrow> nat \<Rightarrow> nat \<Rightarrow> heap" where
  "SetFlags h p f = h\<lparr>sinks := (sinks h)(p := (sinks h p)\<lparr>flag := f\<rparr>)\<rparr>"

definition SetPrefix :: "heap \<Rightarrow> nat \<Rightarrow> string \<Rightarrow> heap" where
  "SetPrefix h p s = h\<lparr>sinks := (sinks h)(p := (sinks h p)\<lparr>prefix := s\<rparr>)\<rparr>"

definition formatHeader :: "runtime \<Rightarrow> string \<Rightarrow> nat \<Rightarrow> string" where
  "formatHeader rt pre fl = (if fl = 0 then pre else header_other rt fl pre)"

definition endLine :: "string \<Rightarrow> string" where
  "endLine buf = (if buf = [] \<or> last buf \<noteq> CHR 0x0A then buf @ [CHR 0x0A] else buf)"

text \<open>
  \<open>(*log.Logger).Output\<close>: header, then the message, then a newline unless there is
  one already; the buffer goes to the stream in a single write. The newline test is on
  the whole buffer, as since Go 1.21; before, it was on the message alone, which is the
  same for a message that is not empty, and no message of this package is. With the
  flags at 0 the header is the prefix.
\<close>

definition Output :: "runtime \<Rightarrow> heap \<Rightarrow> nat \<Rightarrow> string \<Rightarrow> heap" where
  "Output rt h p m =
     (let s = sinks h p;
          buf = endLine (formatHeader rt (prefix s) (flag s) @ m)
      in h\<lparr>sinks := (sinks h)(p := s\<lparr>out := out s @ [buf]\<rparr>)\<rparr>)"

definition Printf :: "runtime \<Rightarrow> heap \<Rightarrow> nat \<Rightarrow> string \<Rightarrow> any list \<Rightarrow> heap" where
  "Printf rt h p format v = Output rt h p (Sprintf rt format v)"

text \<open>A call either returns, or ends the process with an exit status.\<close>

datatype outcome = Return heap | Exit int heap

text \<open>
  \<open>(*log.Logger).Fatal\<close> on one string operand (\<open>fmt.Sprint\<close> of a single string is
  that string): write, then \<open>os.Exit(1)\<close>.
\<close>

definition log_Fatal :: "runtime \<Rightarrow> heap \<Rightarrow> nat \<Rightarrow> string \<Rightarrow> outcome" where
  "log_Fatal rt h p m = Exit 1 (Output rt h p m)"

section \<open>Package logr\<close>

definition getLevel :: "runtime \<Rightarrow> string \<Rightarrow> Level" where
  "getLevel rt l =
     (let s = ToLower rt l in
      if s = ''error'' then ErrorLevel
      else if s = ''debug'' then DebugLevel
      else if s = ''info'' then InfoLevel
      else InfoLevel)"

definition alloc :: "heap \<Rightarrow> Logger \<Rightarrow> heap \<times> nat" where
  "alloc h v = (h\<lparr>loggers := (loggers h)(nextp h := v), nextp := Suc (nextp h)\<rparr>, nextp h)"

definition NewLogger :: "runtime \<Rightarrow> heap \<Rightarrow> heap \<times> nat" where
  "NewLogger rt h =
     (let (level, ok) = LookupEnv rt ''LOG_LEVEL'';
          level = (if ok then Getenv rt ''LOG_LEVEL'' else level);
          l = getLevel rt level;
          logger = log_Default;
          h1 = SetFlags h logger 0
      in alloc h1 \<lparr>Level = l, sink = logger, contextMessage = []\<rparr>)"

definition log :: "runtime \<Rightarrow> heap \<Rightarrow> nat \<Rightarrow> Level \<Rightarrow> any \<Rightarrow> heap" where
  "log rt h l lvl s =
     (let timeLevel = Sprintf rt ''timestamp=%s level=%s '' [AString (now rt), AString (name lvl)];
          h1 = SetPrefix h (sink (loggers h l)) timeLevel
      in if val lvl \<le> val (Level (loggers h1 l)) then
           if contextMessage (loggers h1 l) \<noteq> [] then
             Printf rt h1 (sink (loggers h1 l)) ''msg=%q%s''
               [s, AString (contextMessage (loggers h1 l))]
           else Printf rt h1 (sink (loggers h1 l)) ''msg=%q'' [s]
         else h1)"

definition clone :: "heap \<Rightarrow> nat \<Rightarrow> heap \<times> nat" where
  "clone h l = (let copy = loggers h l in alloc h copy)"

text \<open>
  \<open>WithContext\<close>: the loop runs over the entries of the map in the order the runtime
  gives for this iteration.
\<close>

definition WithContext :: "runtime \<Rightarrow> heap \<Rightarrow> nat \<Rightarrow> (string \<rightharpoonup> string) \<Rightarrow> heap \<times> nat" where
  "WithContext rt h l s =
     (let (h1, c) = clone h l;
          context = contextMessage (loggers h1 l);
          context = foldl (\<lambda>context (k, v).
                       Sprintf rt ''%s %s=%s'' [AString context, AString k, AString v])
                      context (mapiter rt s)
      in (h1\<lparr>loggers := (loggers h1)(c := (loggers h1 c)\<lparr>contextMessage := context\<rparr>)\<rparr>, c))"

definition WithSource :: "runtime \<Rightarrow> heap \<Rightarrow> nat \<Rightarrow> heap \<times> nat" where
  "WithSource rt h l =
     (let fr = Caller rt 1 in
      WithContext rt h l
        [''file'' \<mapsto> srcfile fr, ''line'' \<mapsto> Sprintf rt ''%d'' [AInt (srcline fr)]])"

definition Error :: "runtime \<Rightarrow> heap \<Rightarrow> nat \<Rightarrow> any \<Rightarrow> heap" where
  "Error rt h l s = log rt h l ErrorLevel s"

definition Errorf :: "runtime \<Rightarrow> heap \<Rightarrow> nat \<Rightarrow> string \<Rightarrow> any list \<Rightarrow> heap" where
  "Errorf rt h l format s =
     (let f = Sprintf rt ''%s'' [AString format];
          m = Sprintf rt f s
      in log rt h l ErrorLevel (AString m))"

definition Info :: "runtime \<Rightarrow> heap \<Rightarrow> nat \<Rightarrow> any \<Rightarrow> heap" where
  "Info rt h l s = log rt h l InfoLevel s"

definition Infof :: "runtime \<Rightarrow> heap \<Rightarrow> nat \<Rightarrow> string \<Rightarrow> any list \<Rightarrow> heap" where
  "Infof rt h l format s =
     (let f = Sprintf rt ''%s'' [AString format];
          m = Sprintf rt f s
      in log rt h l InfoLevel (AString m))"

definition Debug :: "runtime \<Rightarrow> heap \<Rightarrow> nat \<Rightarrow> any \<Rightarrow> heap" where
  "Debug rt h l s = log rt h l DebugLevel s"

definition Debugf :: "runtime \<Rightarrow> heap \<Rightarrow> nat \<Rightarrow> string \<Rightarrow> any list \<Rightarrow> heap" where
  "Debugf rt h l format s =
     (let f = Sprintf rt ''%s'' [AString format];
          m = Sprintf rt f s
      in log rt h l DebugLevel (AString m))"

definition Fatal :: "runtime \<Rightarrow> heap \<Rightarrow> nat \<Rightarrow> any \<Rightarrow> outcome" where
  "Fatal rt h l s =
     (let m = Sprintf rt ''level=FATAL msg=%s'' [s]
      in log_Fatal rt h (sink (loggers h l)) m)"

definition Fatalf :: "runtime \<Rightarrow> heap \<Rightarrow> nat \<Rightarrow> string \<Rightarrow> any list \<Rightarrow> outcome" where
  "Fatalf rt h l format s =
     (let f = Sprintf rt ''level=FATAL msg=%s'' [AString format];
          m = Sprintf rt f s
      in log_Fatal rt h (sink (loggers h l)) m)"

text \<open>
  \<open>GetCaller\<close>: indexing the split at 1 panics when the split has a single component.
\<close>

datatype panic = IndexOutOfRange nat nat

definition GetCaller :: "runtime \<Rightarrow> panic + string" where
  "GetCaller rt =
     (let fr = Caller rt 1 in
      if \<not> ok fr then Inr ''function name unknown''
      else
        let funcName = Split (FuncForPC_Name rt (pc fr)) CHR ''.''
        in if 1 < length funcName then Inr (funcName ! 1)
           else Inl (IndexOutOfRange 1 (length funcName)))"

section \<open>Vocabulary of the properties\<close>

text \<open>
  Between the heaps \<open>h\<close> and \<open>h'\<close> exactly the lines \<open>ls\<close> were written, all of them
  to the sink at \<open>p\<close>.
\<close>

definition wrote :: "heap \<Rightarrow> heap \<Rightarrow> nat \<Rightarrow> string list \<Rightarrow> bool" where
  "wrote h h' p ls \<longleftrightarrow> (\<forall>q. out (sinks h' q) = out (sinks h q) @ (if q = p then ls else []))"

text \<open>
  The six emission methods on the logger at \<open>l\<close>, each with its severity and the heap
  it leaves: \<open>s\<close> is the message of the plain variants, \<open>f\<close> and \<open>a\<close> the format and the
  operands of the formatted ones.
\<close>

definition severity_calls ::
  "runtime \<Rightarrow> heap \<Rightarrow> nat \<Rightarrow> any \<Rightarrow> string \<Rightarrow> any list \<Rightarrow> (Level \<times> heap) list" where
  "severity_calls rt h l s f a =
     [(ErrorLevel, Error rt h l s), (ErrorLevel, Errorf rt h l f a),
      (InfoLevel, Info rt h l s), (InfoLevel, Infof rt h l f a),
      (DebugLevel, Debug rt h l s), (DebugLevel, Debugf rt h l f a)]"

definition heap_of :: "outcome \<Rightarrow> heap" where
  "heap_of r = (case r of Return h \<Rightarrow> h | Exit n h \<Rightarrow> h)"

subsection \<open>A concrete process\<close>

text \<open>
  A runtime with \<open>LOG_LEVEL\<close> unset, and the heap of a process at start: no logger,
  the standard sink with an empty prefix, the flags \<open>LstdFlags\<close> and nothing written.
\<close>

definition rt0 :: runtime where
  "rt0 = \<lparr>now = ''2025-01-02T03:04:05'', environ = Map.empty,
     Caller = (\<lambda>_. \<lparr>pc = 7, srcfile = ''main.go'', srcline = 12, ok = True\<rparr>),
     FuncForPC_Name = (\<lambda>_. ''main.run''),
     mapiter = (\<lambda>_. []), arg_other = (\<lambda>_ _. []), fmt_other = (\<lambda>_ _ _. []),
     header_other = (\<lambda>_ _. []), lower_other = (\<lambda>s. s)\<rparr>"

definition heap0 :: heap where
  "heap0 = \<lparr>loggers = (\<lambda>_. \<lparr>Level = \<lparr>val = 0, name = []\<rparr>, sink = 0, contextMessage = []\<rparr>),
     nextp = 0, sinks = (\<lambda>_. \<lparr>prefix = [], flag = 3, out = []\<rparr>)\<rparr>"

text \<open>The heap after \<open>NewLogger()\<close>: the logger at address 0, threshold INFO.\<close>

definition heap1 :: heap where
  "heap1 = fst (NewLogger rt0 heap0)"

text \<open>The heap after one \<open>Info\<close> call on that logger.\<close>

definition heapI :: heap where
  "heapI = Info rt0 heap1 0 (AString ''up'')"

text \<open>
  The two fatal methods on the logger at \<open>l\<close>, each with the text it puts after
  \<open>msg=\<close> and its outcome.
\<close>

definition fatal_calls ::
  "runtime \<Rightarrow> heap \<Rightarrow> nat \<Rightarrow> any \<Rightarrow> string \<Rightarrow> any list \<Rightarrow> (string \<times> outcome) list" where
  "fatal_calls rt h l s f a =
     [(printArg rt s CHR ''s'', Fatal rt h l s), (Sprintf rt f a, Fatalf rt h l f a)]"

subsection \<open>Casings of a word\<close>

text \<open>
  The upper-case form of a lower-case ASCII letter, and \<open>casing_of w s\<close>: the string \<open>s\<close>
  is the lower-case word \<open>w\<close> with each letter in either case.
\<close>

definition upperByte :: "char \<Rightarrow> char" where
  "upperByte c =
     (let n = (of_char c :: nat) in if 97 \<le> n \<and> n \<le> 122 then char_of (n - 32) else c)"

definition casing_of :: "string \<Rightarrow> string \<Rightarrow> bool" where
  "casing_of w s = list_all2 (\<lambda>a b. b = a \<or> b = upperByte a) w s"

text \<open>
  The one fact about \<open>unicode.ToLower\<close> that level resolution rests on: the lower-cased
  form of a string with a byte outside ASCII still has such a byte, or an \<open>i\<close> or a
  \<open>k\<close> (the images of U+0130 and U+212A, the only runes outside ASCII whose lower case
  is inside).
\<close>

definition unicode_lower_ok :: "runtime \<Rightarrow> bool" where
  "unicode_lower_ok rt \<longleftrightarrow>
     (\<forall>s. \<not> isASCII s \<longrightarrow>
        (\<exists>c \<in> set (lower_other rt s). 128 \<le> (of_char c :: nat) \<or> c = CHR ''i'' \<or> c = CHR ''k''))"

subsection \<open>Ranging over a map\<close>

text \<open>
  \<open>visits m kvs\<close>: the list \<open>kvs\<close> is an order in which a \<open>range\<close> loop may visit the
  map \<open>m\<close>, every entry once. \<open>suffix_of kvs\<close> is \<open>" k=v"\<close> for every entry, in that order.
\<close>

definition visits :: "(string \<rightharpoonup> string) \<Rightarrow> (string \<times> string) list \<Rightarrow> bool" where
  "visits m kvs \<longleftrightarrow> distinct (map fst kvs) \<and> map_of kvs = m"

definition suffix_of :: "(string \<times> string) list \<Rightarrow> string" where
  "suffix_of kvs = concat (map (\<lambda>(k, v). '' '' @ k @ ''='' @ v) kvs)"

text \<open>
  Two derivations in the concrete process: \<open>WithContext({"a": "1"})\<close> on the logger at 0
  gives the logger at 1, and \<open>WithContext({"b": "2"})\<close> on that one the logger at 2.
\<close>

definition rtA :: runtime where
  "rtA = rt0\<lparr>mapiter := (\<lambda>_. [(''a'', ''1'')])\<rparr>"

definition rtB :: runtime where
  "rtB = rt0\<lparr>mapiter := (\<lambda>_. [(''b'', ''2'')])\<rparr>"

definition heapA :: heap where
  "heapA = fst (WithContext rtA heap1 0 [''a'' \<mapsto> ''1''])"

definition heapB :: heap where
  "heapB = fst (WithContext rtB heapA 1 [''b'' \<mapsto> ''2''])"

subsection \<open>Positional interpolation\<close>

text \<open>
  What the specification calls standard positional interpolation, stated on its own: a
  format is a sequence of pieces, literal text, verbs and \<open>%%\<close>; the k-th verb prints the
  k-th operand. \<open>fits\<close> says that the literal texts have no \<open>%\<close>, that the verbs are lower-case
  letters and that there is one operand for each verb.
\<close>

datatype piece = Lit string | Verb char | Percent

fun format_of :: "piece list \<Rightarrow> string" where
  "format_of [] = []"
| "format_of (Lit t # ps) = t @ format_of ps"
| "format_of (Verb v # ps) = CHR ''%'' # v # format_of ps"
| "format_of (Percent # ps) = ''%%'' @ format_of ps"

fun interpolate :: "runtime \<Rightarrow> piece list \<Rightarrow> any list \<Rightarrow> string" where
  "interpolate rt [] xs = []"
| "interpolate rt (Lit t # ps) xs = t @ interpolate rt ps xs"
| "interpolate rt (Verb v # ps) (x # xs) = printArg rt x v @ interpolate rt ps xs"
| "interpolate rt (Verb v # ps) [] = []"
| "interpolate rt (Percent # ps) xs = CHR ''%'' # interpolate rt ps xs"

fun fits :: "piece list \<Rightarrow> any list \<Rightarrow> bool" where
  "fits [] xs = (xs = [])"
| "fits (Lit t # ps) xs = (CHR ''%'' \<notin> set t \<and> fits ps xs)"
| "fits (Verb v # ps) (x # xs) = (isLowerVerb v \<and> fits ps xs)"
| "fits (Verb v # ps) [] = False"
| "fits (Percent # ps) xs = fits ps xs"

text \<open>
  The same runtime when \<open>runtime.FuncForPC\<close> knows no function for the caller's pc: the
  name of a nil \<open>*Func\<close> is the empty string.
\<close>

definition rtN :: runtime where
  "rtN = rt0\<lparr>FuncForPC_Name := (\<lambda>_. [])\<rparr>"

section \<open>The format literals of the package\<close>

lemma Sprintf_timeLevel:
  "Sprintf rt ''timestamp=%s level=%s '' [AString a, AString b] =
     ''timestamp='' @ a @ '' level='' @ b @ '' ''"
  by (simp add: Sprintf_def printArg_def isLowerVerb_def)

lemma Sprintf_msg_ctx:
  "Sprintf rt ''msg=%q%s'' [s, AString c] = ''msg='' @ printArg rt s CHR ''q'' @ c"
  by (simp add: Sprintf_def printArg_def isLowerVerb_def)

lemma Sprintf_msg:
  "Sprintf rt ''msg=%q'' [s] = ''msg='' @ printArg rt s CHR ''q''"
  by (simp add: Sprintf_def isLowerVerb_def)

lemma Sprintf_kv:
  "Sprintf rt ''%s %s=%s'' [AString a, AString k, AString v] = a @ '' '' @ k @ ''='' @ v"
  by (simp add: Sprintf_def printArg_def isLowerVerb_def)

lemma Sprintf_s:
  "Sprintf rt ''%s'' [AString f] = f"
  by (simp add: Sprintf_def printArg_def isLowerVerb_def)

lemma Sprintf_fatal:
  "Sprintf rt ''level=FATAL msg=%s'' [s] = ''level=FATAL msg='' @ printArg rt s CHR ''s''"
  by (simp add: Sprintf_def isLowerVerb_def)

lemma doPrintf_literal:
  "CHR ''%'' \<notin> set lit \<Longrightarrow> doPrintf rt (lit @ fs) a n = lit @ doPrintf rt fs a n"
  by (induction lit) auto

lemma Sprintf_fatalf:
  "Sprintf rt (Sprintf rt ''level=FATAL msg=%s'' [AString f]) a =
     ''level=FATAL msg='' @ Sprintf rt f a"
proof -
  have "Sprintf rt ''level=FATAL msg=%s'' [AString f] = ''level=FATAL msg='' @ f"
    by (simp add: Sprintf_fatal printArg_def)
  moreover have "CHR ''%'' \<notin> set ''level=FATAL msg=''"
    by simp
  ultimately show ?thesis
    unfolding Sprintf_def using doPrintf_literal by metis
qed

section \<open>What one emission does to the store\<close>

lemma endLine_newline: "endLine b \<noteq> [] \<and> last (endLine b) = CHR 0x0A"
  by (simp add: endLine_def)

lemma endLine_append: "m \<noteq> [] \<Longrightarrow> endLine (p @ m) = p @ endLine m"
  by (simp add: endLine_def)

lemma log_sinks:
  "sinks (log rt h l lvl s) =
     (sinks h)(sink (loggers h l) := (sinks h (sink (loggers h l)))
        \<lparr>prefix := ''timestamp='' @ now rt @ '' level='' @ name lvl @ '' '',
         out := out (sinks h (sink (loggers h l))) @
           (if val lvl \<le> val (Level (loggers h l))
            then [endLine (formatHeader rt (''timestamp='' @ now rt @ '' level='' @ name lvl @ '' '')
                     (flag (sinks h (sink (loggers h l)))) @
                   ''msg='' @ printArg rt s CHR ''q'' @ contextMessage (loggers h l))]
            else [])\<rparr>)"
  by (cases "contextMessage (loggers h l) = []")
     (simp_all add: log_def SetPrefix_def Printf_def Output_def Sprintf_timeLevel
        Sprintf_msg_ctx Sprintf_msg Let_def)

lemma log_loggers: "loggers (log rt h l lvl s) = loggers h \<and> nextp (log rt h l lvl s) = nextp h"
  by (simp add: log_def SetPrefix_def Printf_def Output_def Let_def)

lemma severity_calls_log:
  "(S, h') \<in> set (severity_calls rt h l s f a) \<Longrightarrow>
     h' = log rt h l S s \<or> h' = log rt h l S (AString (Sprintf rt f a))"
  by (auto simp: severity_calls_def Error_def Errorf_def Info_def Infof_def Debug_def
        Debugf_def Sprintf_s)

lemma log_wrote_one:
  "val lvl \<le> val (Level (loggers h l)) \<Longrightarrow>
     \<exists>ln. ln \<noteq> [] \<and> last ln = CHR 0x0A \<and> wrote h (log rt h l lvl s) (sink (loggers h l)) [ln]"
  unfolding wrote_def log_sinks using endLine_newline by (intro exI conjI; simp)

lemma log_wrote_none:
  "\<not> val lvl \<le> val (Level (loggers h l)) \<Longrightarrow>
     wrote h (log rt h l lvl s) (sink (loggers h l)) []"
  unfolding wrote_def log_sinks by simp

lemma wrote_unique: "wrote h h' p ls \<Longrightarrow> wrote h h' p ls' \<Longrightarrow> ls = ls'"
  unfolding wrote_def by (metis (full_types) same_append_eq)

subsection \<open>The concrete process\<close>

lemma heap1_logger: "loggers heap1 0 = \<lparr>Level = InfoLevel, sink = 0, contextMessage = []\<rparr>"
  by (simp add: heap1_def NewLogger_def LookupEnv_def rt0_def heap0_def alloc_def SetFlags_def
        getLevel_def ToLower_def isASCII_def log_Default_def)

lemma heap1_sink: "sinks heap1 0 = \<lparr>prefix = [], flag = 0, out = []\<rparr>"
  by (simp add: heap1_def NewLogger_def LookupEnv_def rt0_def heap0_def alloc_def SetFlags_def
        log_Default_def)

lemma heap1_nextp: "nextp heap1 = 1"
  by (simp add: heap1_def NewLogger_def LookupEnv_def rt0_def heap0_def alloc_def SetFlags_def)

subsection \<open>Fatal writes\<close>

lemma Output_sinks:
  "sinks (Output rt h p m) =
     (sinks h)(p := (sinks h p)
        \<lparr>out := out (sinks h p) @
           [endLine (formatHeader rt (prefix (sinks h p)) (flag (sinks h p)) @ m)]\<rparr>)"
  by (simp add: Output_def Let_def)

lemma Fatal_outcome:
  "Fatal rt h l s =
     Exit 1 (Output rt h (sink (loggers h l)) (''level=FATAL msg='' @ printArg rt s CHR ''s''))"
  by (simp add: Fatal_def log_Fatal_def Sprintf_fatal)

lemma Fatalf_outcome:
  "Fatalf rt h l f a =
     Exit 1 (Output rt h (sink (loggers h l)) (''level=FATAL msg='' @ Sprintf rt f a))"
  by (simp add: Fatalf_def log_Fatal_def Sprintf_fatalf)

lemma fatal_calls_outcome:
  "(msg, r) \<in> set (fatal_calls rt h l s f a) \<Longrightarrow>
     r = Exit 1 (Output rt h (sink (loggers h l)) (''level=FATAL msg='' @ msg))"
  by (auto simp: fatal_calls_def Fatal_outcome Fatalf_outcome)

lemma Output_wrote:
  "wrote h (Output rt h p m) p
     [endLine (formatHeader rt (prefix (sinks h p)) (flag (sinks h p)) @ m)]"
  by (simp add: wrote_def Output_sinks)

lemma Output_prefix: "prefix (sinks (Output rt h p m) q) = prefix (sinks h q)"
  by (simp add: Output_sinks)

lemma fatal_text_nonempty: "''level=FATAL msg='' @ msg \<noteq> []"
  by simp

lemma Output_wrote_plain:
  "flag (sinks h p) = 0 \<Longrightarrow> m \<noteq> [] \<Longrightarrow>
     wrote h (Output rt h p m) p [prefix (sinks h p) @ endLine m]"
  by (simp add: wrote_def Output_sinks formatHeader_def endLine_append)

lemma severity_call_prefix:
  "(S, h1) \<in> set (severity_calls rt h l s f a) \<Longrightarrow>
     prefix (sinks h1 (sink (loggers h l))) = ''timestamp='' @ now rt @ '' level='' @ name S @ '' ''
     \<and> flag (sinks h1 (sink (loggers h l))) = flag (sinks h (sink (loggers h l)))
     \<and> loggers h1 = loggers h"
  using severity_calls_log [of S h1 rt h l s f a] by (auto simp: log_sinks log_loggers)

lemma timeLevel_nonempty: "''timestamp='' @ t @ '' level='' @ n @ '' '' \<noteq> []"
  by simp

lemma heapI_sink:
  \<open>sinks heapI 0 = \<lparr>prefix = ''timestamp=2025-01-02T03:04:05 level=INFO '', flag = 0,
      out = [''timestamp=2025-01-02T03:04:05 level=INFO msg="up"'' @ [CHR 0x0A]]\<rparr>\<close>
  by (simp add: heapI_def Info_def log_sinks heap1_logger heap1_sink InfoLevel_def rt0_def
        formatHeader_def printArg_def isASCII_def Quote_def escapeByte_def endLine_def)

lemma heapI_logger: "loggers heapI 0 = \<lparr>Level = InfoLevel, sink = 0, contextMessage = []\<rparr>"
  by (simp add: heapI_def Info_def log_loggers heap1_logger)

section \<open>The threshold gate\<close>

text \<open>
  C1. For every logger and every one of the six emission methods (\<open>Error\<close>, \<open>Info\<close>,
  \<open>Debug\<close> and their formatted variants), the call writes exactly one line, ending in
  a newline and going to the logger's sink, if and only if the rank of its severity is at
  most the rank of the logger's threshold; when the rank is above the threshold, nothing
  is written to any sink. A line is one write to the sink's stream.
\<close>

theorem emission_gate:
  assumes "(S, h') \<in> set (severity_calls rt h l s f a)"
  shows "((\<exists>ln. ln \<noteq> [] \<and> last ln = CHR 0x0A \<and> wrote h h' (sink (loggers h l)) [ln])
           \<longleftrightarrow> val S \<le> val (Level (loggers h l)))
         \<and> (val (Level (loggers h l)) < val S \<longrightarrow> wrote h h' (sink (loggers h l)) [])"
proof -
  from severity_calls_log [OF assms] obtain m where h': "h' = log rt h l S m"
    by blast
  show ?thesis
  proof (cases "val S \<le> val (Level (loggers h l))")
    case True
    then show ?thesis
      unfolding h' using log_wrote_one by auto
  next
    case False
    then have none: "wrote h h' (sink (loggers h l)) []"
      unfolding h' by (rule log_wrote_none)
    have "\<not> (\<exists>ln. wrote h h' (sink (loggers h l)) [ln])"
      using wrote_unique [OF none] by blast
    with False none show ?thesis
      by auto
  qed
qed

theorem emission_gate_witness:
  "(InfoLevel, Info rt0 heap1 0 (AString ''hi''))
      \<in> set (severity_calls rt0 heap1 0 (AString ''hi'') ''n=%d'' [AInt 1])
   \<and> val InfoLevel \<le> val (Level (loggers heap1 0))
   \<and> (\<exists>ln. ln \<noteq> [] \<and> last ln = CHR 0x0A
        \<and> wrote heap1 (Info rt0 heap1 0 (AString ''hi'')) (sink (loggers heap1 0)) [ln])
   \<and> (DebugLevel, Debugf rt0 heap1 0 ''n=%d'' [AInt 1])
      \<in> set (severity_calls rt0 heap1 0 (AString ''hi'') ''n=%d'' [AInt 1])
   \<and> val (Level (loggers heap1 0)) < val DebugLevel
   \<and> wrote heap1 (Debugf rt0 heap1 0 ''n=%d'' [AInt 1]) (sink (loggers heap1 0)) []"
proof -
  have i: "(InfoLevel, Info rt0 heap1 0 (AString ''hi''))
      \<in> set (severity_calls rt0 heap1 0 (AString ''hi'') ''n=%d'' [AInt 1])"
    by (simp add: severity_calls_def)
  have d: "(DebugLevel, Debugf rt0 heap1 0 ''n=%d'' [AInt 1])
      \<in> set (severity_calls rt0 heap1 0 (AString ''hi'') ''n=%d'' [AInt 1])"
    by (simp add: severity_calls_def)
  have ranks: "val InfoLevel \<le> val (Level (loggers heap1 0))"
    "val (Level (loggers heap1 0)) < val DebugLevel"
    by (simp_all add: heap1_logger InfoLevel_def DebugLevel_def)
  show ?thesis
    using i d ranks emission_gate [OF i] emission_gate [OF d] by blast
qed

text \<open>
  C6. A severity call whose rank is above the logger's threshold still sets the prefix of
  the logger's sink to \<open>timestamp=<now> level=<name> \<close>, and writes no line.
\<close>

theorem filtered_call_sets_prefix:
  assumes "(S, h') \<in> set (severity_calls rt h l s f a)"
    and "val (Level (loggers h l)) < val S"
  shows "prefix (sinks h' (sink (loggers h l))) =
           ''timestamp='' @ now rt @ '' level='' @ name S @ '' ''
         \<and> wrote h h' (sink (loggers h l)) []"
proof -
  from severity_calls_log [OF assms(1)] obtain m where h': "h' = log rt h l S m"
    by blast
  have "\<not> val S \<le> val (Level (loggers h l))"
    using assms(2) by simp
  then have "wrote h h' (sink (loggers h l)) []"
    unfolding h' by (rule log_wrote_none)
  moreover have "prefix (sinks h' (sink (loggers h l))) =
      ''timestamp='' @ now rt @ '' level='' @ name S @ '' ''"
    unfolding h' log_sinks by simp
  ultimately show ?thesis
    by simp
qed

theorem filtered_call_sets_prefix_witness:
  "(DebugLevel, Debug rt0 heap1 0 (AString ''hi''))
      \<in> set (severity_calls rt0 heap1 0 (AString ''hi'') ''n=%d'' [AInt 1])
   \<and> val (Level (loggers heap1 0)) < val DebugLevel
   \<and> prefix (sinks (Debug rt0 heap1 0 (AString ''hi'')) 0) =
       ''timestamp=2025-01-02T03:04:05 level=DEBUG ''
   \<and> wrote heap1 (Debug rt0 heap1 0 (AString ''hi'')) 0 []"
proof -
  have d: "(DebugLevel, Debug rt0 heap1 0 (AString ''hi''))
      \<in> set (severity_calls rt0 heap1 0 (AString ''hi'') ''n=%d'' [AInt 1])"
    by (simp add: severity_calls_def)
  have r: "val (Level (loggers heap1 0)) < val DebugLevel"
    by (simp add: heap1_logger InfoLevel_def DebugLevel_def)
  have "sink (loggers heap1 0) = 0" "now rt0 = ''2025-01-02T03:04:05''"
    "name DebugLevel = ''DEBUG''"
    by (simp_all add: heap1_logger rt0_def DebugLevel_def)
  with d r filtered_call_sets_prefix [OF d r] show ?thesis
    by simp
qed

section \<open>Fatal\<close>

text \<open>
  What the two fatal methods do, whatever the threshold: one line goes to the logger's
  sink and the process ends with exit status 1. With the flags at 0 the line is the
  sink's prefix and then \<open>level=FATAL msg=<message>\<close>, a string message standing for
  itself.
\<close>

lemma Fatal_writes:
  assumes "(msg, r) \<in> set (fatal_calls rt h l s f a)"
  shows "r = Exit 1 (heap_of r)
    \<and> (\<exists>ln. wrote h (heap_of r) (sink (loggers h l)) [ln])
    \<and> (flag (sinks h (sink (loggers h l))) = 0 \<longrightarrow>
         wrote h (heap_of r) (sink (loggers h l))
           [prefix (sinks h (sink (loggers h l))) @ endLine (''level=FATAL msg='' @ msg)])
    \<and> (flag (sinks h (sink (loggers h l))) = 0 \<and> prefix (sinks h (sink (loggers h l))) = [] \<longrightarrow>
         wrote h (heap_of r) (sink (loggers h l)) [endLine (''level=FATAL msg='' @ msg)])
    \<and> printArg rt (AString x) CHR ''s'' = x"
proof -
  let ?p = "sink (loggers h l)"
  let ?m = "''level=FATAL msg='' @ msg"
  have r: "r = Exit 1 (Output rt h ?p ?m)"
    using assms by (rule fatal_calls_outcome)
  then have ho: "heap_of r = Output rt h ?p ?m"
    by (simp add: heap_of_def)
  have one: "\<exists>ln. wrote h (heap_of r) ?p [ln]"
    unfolding ho using Output_wrote by blast
  have plain: "wrote h (heap_of r) ?p [prefix (sinks h ?p) @ endLine ?m]"
    if "flag (sinks h ?p) = 0"
    unfolding ho using that fatal_text_nonempty by (rule Output_wrote_plain)
  have bare: "wrote h (heap_of r) ?p [endLine ?m]"
    if "flag (sinks h ?p) = 0" and "prefix (sinks h ?p) = []"
    using plain [OF that(1)] that(2) by (metis append_Nil)
  have unquoted: "printArg rt (AString x) CHR ''s'' = x"
    by (simp add: printArg_def)
  have exits: "r = Exit 1 (heap_of r)"
    using r ho by (metis (full_types))
  from exits one plain bare unquoted show ?thesis
    by blast
qed

text \<open>
  C5. For every logger and every message, \<open>Fatal\<close> and \<open>Fatalf\<close> are to write the line
  \<open>level=FATAL msg=<message>\<close>, with no timestamp prefix and the message unquoted,
  whatever the threshold, and then end the process. The code does so while the prefix of
  the sink is empty: in the concrete process, \<open>Fatal("boom")\<close> as the first call writes
  exactly that line and exits with status 1. After \<open>Info("up")\<close> on the same logger it
  does not: the prefix that \<open>Info\<close> left on the sink is still there, and the line is
  \<open>timestamp=2025-01-02T03:04:05 level=INFO level=FATAL msg=boom\<close>.
\<close>

theorem fatal_after_info:
  "Fatal rt0 heap1 0 (AString ''boom'') =
     Exit 1 (heap_of (Fatal rt0 heap1 0 (AString ''boom'')))
   \<and> wrote heap1 (heap_of (Fatal rt0 heap1 0 (AString ''boom''))) 0
     [''level=FATAL msg=boom'' @ [CHR 0x0A]]
   \<and> Fatal rt0 heapI 0 (AString ''boom'') =
     Exit 1 (heap_of (Fatal rt0 heapI 0 (AString ''boom'')))
   \<and> wrote heapI (heap_of (Fatal rt0 heapI 0 (AString ''boom''))) 0
     [''timestamp=2025-01-02T03:04:05 level=INFO level=FATAL msg=boom'' @ [CHR 0x0A]]
   \<and> \<not> wrote heapI (heap_of (Fatal rt0 heapI 0 (AString ''boom''))) 0
     [''level=FATAL msg=boom'' @ [CHR 0x0A]]"
proof -
  let ?h1 = "heap_of (Fatal rt0 heap1 0 (AString ''boom''))"
  let ?hI = "heap_of (Fatal rt0 heapI 0 (AString ''boom''))"
  have o1: "Fatal rt0 heap1 0 (AString ''boom'') =
      Exit 1 (Output rt0 heap1 0 (''level=FATAL msg='' @ ''boom''))"
    by (simp add: Fatal_outcome heap1_logger printArg_def)
  have oI: "Fatal rt0 heapI 0 (AString ''boom'') =
      Exit 1 (Output rt0 heapI 0 (''level=FATAL msg='' @ ''boom''))"
    by (simp add: Fatal_outcome heapI_logger printArg_def)
  have e1: "Fatal rt0 heap1 0 (AString ''boom'') = Exit 1 ?h1"
    unfolding o1 by (simp add: heap_of_def)
  have eI: "Fatal rt0 heapI 0 (AString ''boom'') = Exit 1 ?hI"
    unfolding oI by (simp add: heap_of_def)
  have h1: "?h1 = Output rt0 heap1 0 (''level=FATAL msg='' @ ''boom'')"
    unfolding o1 by (simp add: heap_of_def)
  have hI: "?hI = Output rt0 heapI 0 (''level=FATAL msg='' @ ''boom'')"
    unfolding oI by (simp add: heap_of_def)
  have "wrote heap1 ?h1 0 [prefix (sinks heap1 0) @ endLine (''level=FATAL msg='' @ ''boom'')]"
    unfolding h1 by (rule Output_wrote_plain) (simp_all add: heap1_sink)
  then have w1: "wrote heap1 ?h1 0 [''level=FATAL msg=boom'' @ [CHR 0x0A]]"
    by (simp add: heap1_sink endLine_def)
  have "wrote heapI ?hI 0 [prefix (sinks heapI 0) @ endLine (''level=FATAL msg='' @ ''boom'')]"
    unfolding hI by (rule Output_wrote_plain) (simp_all add: heapI_sink)
  then have wI: "wrote heapI ?hI 0
      [''timestamp=2025-01-02T03:04:05 level=INFO level=FATAL msg=boom'' @ [CHR 0x0A]]"
    by (simp add: heapI_sink endLine_def)
  have "\<not> wrote heapI ?hI 0 [''level=FATAL msg=boom'' @ [CHR 0x0A]]"
  proof
    assume "wrote heapI ?hI 0 [''level=FATAL msg=boom'' @ [CHR 0x0A]]"
    from wrote_unique [OF wI this] show False
      by simp
  qed
  with e1 w1 eI wI show ?thesis
    by blast
qed

text \<open>
  C7. After any of the six emission calls, filtered or not, the prefix of the logger's
  sink is that call's \<open>timestamp=<now> level=<name> \<close>. \<open>Fatal\<close> and \<open>Fatalf\<close> leave every
  prefix as it is, so on a logger with the same sink (flags 0) they write that prefix
  followed by \<open>level=FATAL msg=<message>\<close>, which is not the bare line.
\<close>

theorem fatal_after_severity_call:
  assumes "(S, h1) \<in> set (severity_calls rt h l s f a)"
    and "sink (loggers h l') = sink (loggers h l)"
    and "flag (sinks h (sink (loggers h l))) = 0"
    and "(msg, r) \<in> set (fatal_calls rt' h1 l' s' f' a')"
  shows "prefix (sinks h1 (sink (loggers h l))) =
           ''timestamp='' @ now rt @ '' level='' @ name S @ '' ''
    \<and> r = Exit 1 (heap_of r)
    \<and> (\<forall>q. prefix (sinks (heap_of r) q) = prefix (sinks h1 q))
    \<and> wrote h1 (heap_of r) (sink (loggers h l))
        [(''timestamp='' @ now rt @ '' level='' @ name S @ '' '') @
         endLine (''level=FATAL msg='' @ msg)]
    \<and> \<not> wrote h1 (heap_of r) (sink (loggers h l)) [endLine (''level=FATAL msg='' @ msg)]
    \<and> (prefix (sinks h (sink (loggers h l))) = [] \<longrightarrow>
         (\<forall>m0 r0. (m0, r0) \<in> set (fatal_calls rt' h l' s' f' a') \<longrightarrow>
            wrote h (heap_of r0) (sink (loggers h l)) [endLine (''level=FATAL msg='' @ m0)]))"
proof -
  let ?p = "sink (loggers h l)"
  let ?tl = "''timestamp='' @ now rt @ '' level='' @ name S @ '' ''"
  let ?m = "''level=FATAL msg='' @ msg"
  from severity_call_prefix [OF assms(1)]
  have pre: "prefix (sinks h1 ?p) = ?tl" and fl: "flag (sinks h1 ?p) = flag (sinks h ?p)"
    and lg: "loggers h1 = loggers h"
    by blast+
  have p': "sink (loggers h1 l') = ?p"
    using lg assms(2) by simp
  have r: "r = Exit 1 (Output rt' h1 ?p ?m)"
    using fatal_calls_outcome [OF assms(4)] p' by simp
  then have ho: "heap_of r = Output rt' h1 ?p ?m"
    by (simp add: heap_of_def)
  have exits: "r = Exit 1 (heap_of r)"
    using r ho by (metis (full_types))
  have keep: "\<forall>q. prefix (sinks (heap_of r) q) = prefix (sinks h1 q)"
    unfolding ho by (simp add: Output_prefix)
  have "flag (sinks h1 ?p) = 0"
    using fl assms(3) by simp
  then have "wrote h1 (heap_of r) ?p [prefix (sinks h1 ?p) @ endLine ?m]"
    unfolding ho using fatal_text_nonempty by (rule Output_wrote_plain)
  then have w: "wrote h1 (heap_of r) ?p [?tl @ endLine ?m]"
    using pre by (metis (full_types))
  have "\<not> wrote h1 (heap_of r) ?p [endLine ?m]"
  proof
    assume "wrote h1 (heap_of r) ?p [endLine ?m]"
    from wrote_unique [OF w this] have "?tl @ endLine ?m = endLine ?m"
      by blast
    then have "?tl = []"
      by (metis append_self_conv2)
    then show False
      using timeLevel_nonempty by blast
  qed
  moreover have "wrote h (heap_of r0) ?p [endLine (''level=FATAL msg='' @ m0)]"
    if e: "prefix (sinks h ?p) = []" and c: "(m0, r0) \<in> set (fatal_calls rt' h l' s' f' a')"
    for m0 r0
  proof -
    have "heap_of r0 = Output rt' h ?p (''level=FATAL msg='' @ m0)"
      using fatal_calls_outcome [OF c] assms(2) by (simp add: heap_of_def)
    moreover have "wrote h (Output rt' h ?p (''level=FATAL msg='' @ m0)) ?p
        [prefix (sinks h ?p) @ endLine (''level=FATAL msg='' @ m0)]"
      using assms(3) fatal_text_nonempty by (rule Output_wrote_plain)
    ultimately show ?thesis
      using e by (metis (full_types) append_Nil)
  qed
  ultimately show ?thesis
    using pre exits keep w by blast
qed

theorem fatal_after_severity_call_witness:
  "(InfoLevel, heapI) \<in> set (severity_calls rt0 heap1 0 (AString ''up'') ''n=%d'' [AInt 1])
   \<and> sink (loggers heap1 0) = sink (loggers heap1 0)
   \<and> flag (sinks heap1 (sink (loggers heap1 0))) = 0
   \<and> (''boom'', Fatal rt0 heapI 0 (AString ''boom''))
        \<in> set (fatal_calls rt0 heapI 0 (AString ''boom'') ''code %d'' [AInt 2])
   \<and> prefix (sinks heapI 0) = ''timestamp=2025-01-02T03:04:05 level=INFO ''
   \<and> prefix (sinks (heap_of (Fatal rt0 heapI 0 (AString ''boom''))) 0) = prefix (sinks heapI 0)
   \<and> wrote heapI (heap_of (Fatal rt0 heapI 0 (AString ''boom''))) 0
        [''timestamp=2025-01-02T03:04:05 level=INFO level=FATAL msg=boom'' @ [CHR 0x0A]]
   \<and> prefix (sinks heap1 0) = []
   \<and> (''boom'', Fatal rt0 heap1 0 (AString ''boom''))
        \<in> set (fatal_calls rt0 heap1 0 (AString ''boom'') ''code %d'' [AInt 2])
   \<and> wrote heap1 (heap_of (Fatal rt0 heap1 0 (AString ''boom''))) 0
        [''level=FATAL msg=boom'' @ [CHR 0x0A]]"
proof -
  have c: "(InfoLevel, heapI) \<in> set (severity_calls rt0 heap1 0 (AString ''up'') ''n=%d'' [AInt 1])"
    by (simp add: severity_calls_def heapI_def)
  have s0: "sink (loggers heap1 0) = 0"
    by (simp add: heap1_logger)
  have fl: "flag (sinks heap1 (sink (loggers heap1 0))) = 0"
    by (simp add: heap1_logger heap1_sink)
  have fI: "(''boom'', Fatal rt0 heapI 0 (AString ''boom''))
      \<in> set (fatal_calls rt0 heapI 0 (AString ''boom'') ''code %d'' [AInt 2])"
    by (simp add: fatal_calls_def printArg_def)
  have f1: "(''boom'', Fatal rt0 heap1 0 (AString ''boom''))
      \<in> set (fatal_calls rt0 heap1 0 (AString ''boom'') ''code %d'' [AInt 2])"
    by (simp add: fatal_calls_def printArg_def)
  have e: "prefix (sinks heap1 0) = []"
    by (simp add: heap1_sink)
  have el: "endLine (''level=FATAL msg='' @ ''boom'') = ''level=FATAL msg=boom'' @ [CHR 0x0A]"
    by (simp add: endLine_def)
  have tl: "''timestamp='' @ now rt0 @ '' level='' @ name InfoLevel @ '' '' =
      ''timestamp=2025-01-02T03:04:05 level=INFO ''"
    by (simp add: rt0_def InfoLevel_def)
  note t = fatal_after_severity_call [OF c refl fl fI, unfolded s0 tl el]
  from t have "prefix (sinks heapI 0) = ''timestamp=2025-01-02T03:04:05 level=INFO ''"
    and "prefix (sinks (heap_of (Fatal rt0 heapI 0 (AString ''boom''))) 0) = prefix (sinks heapI 0)"
    and "wrote heapI (heap_of (Fatal rt0 heapI 0 (AString ''boom''))) 0
        [''timestamp=2025-01-02T03:04:05 level=INFO '' @ (''level=FATAL msg=boom'' @ [CHR 0x0A])]"
    and "wrote heap1 (heap_of (Fatal rt0 heap1 0 (AString ''boom''))) 0
        [endLine (''level=FATAL msg='' @ ''boom'')]"
    using e f1 by blast+
  then show ?thesis
    using c fl fI f1 e el by simp
qed

section \<open>Level resolution\<close>

lemma lowerByte_letter:
  assumes "isLowerVerb a"
  shows "(of_char c :: nat) < 128 \<and> lowerByte c = a \<longleftrightarrow> c = a \<or> c = upperByte a"
proof -
  define n :: nat where "n = of_char c"
  define m :: nat where "m = of_char a"
  have a: "97 \<le> m" "m \<le> 122"
    using assms by (simp_all add: isLowerVerb_def Let_def m_def)
  have up: "(of_char (upperByte a) :: nat) = m - 32"
    using a by (simp add: upperByte_def Let_def m_def)
  have low: "(of_char (lowerByte c) :: nat) = (if 65 \<le> n \<and> n \<le> 90 then n + 32 else n)"
    by (simp add: lowerByte_def Let_def n_def)
  have L: "lowerByte c = a \<longleftrightarrow> (if 65 \<le> n \<and> n \<le> 90 then n + 32 else n) = m"
    unfolding low [symmetric] m_def by (rule of_char_eq_iff [symmetric])
  have E: "c = a \<longleftrightarrow> n = m"
    unfolding n_def m_def by (rule of_char_eq_iff [symmetric])
  have U: "c = upperByte a \<longleftrightarrow> n = m - 32"
    unfolding up [symmetric] n_def by (rule of_char_eq_iff [symmetric])
  have "n < 128 \<and> (if 65 \<le> n \<and> n \<le> 90 then n + 32 else n) = m \<longleftrightarrow> n = m \<or> n = m - 32"
    using a by (cases "65 \<le> n \<and> n \<le> 90") auto
  then show ?thesis
    unfolding L E U n_def [symmetric] .
qed

lemma casing_of_iff:
  "list_all isLowerVerb w \<Longrightarrow> casing_of w s \<longleftrightarrow> isASCII s \<and> map lowerByte s = w"
proof (induction w arbitrary: s)
  case Nil
  then show ?case
    by (auto simp: casing_of_def isASCII_def)
next
  case (Cons a w)
  show ?case
  proof (cases s)
    case Nil
    then show ?thesis
      by (simp add: casing_of_def)
  next
    case (Cons c t)
    have "casing_of w t \<longleftrightarrow> isASCII t \<and> map lowerByte t = w"
      using Cons.IH Cons.prems by simp
    moreover have "(of_char c :: nat) < 128 \<and> lowerByte c = a \<longleftrightarrow> c = a \<or> c = upperByte a"
      using Cons.prems by (simp add: lowerByte_letter)
    ultimately show ?thesis
      unfolding Cons by (auto simp: casing_of_def isASCII_def)
  qed
qed

lemma lower_other_not_word:
  assumes "unicode_lower_ok rt" and "\<not> isASCII s"
    and "isASCII w" and "CHR ''i'' \<notin> set w" and "CHR ''k'' \<notin> set w"
  shows "lower_other rt s \<noteq> w"
proof
  assume e: "lower_other rt s = w"
  from assms(1,2) obtain c where "c \<in> set (lower_other rt s)"
    and "128 \<le> (of_char c :: nat) \<or> c = CHR ''i'' \<or> c = CHR ''k''"
    unfolding unicode_lower_ok_def by blast
  with e assms(3,4,5) show False
    by (auto simp: isASCII_def list_all_iff)
qed

lemma ToLower_word:
  assumes "unicode_lower_ok rt" and "list_all isLowerVerb w"
    and "CHR ''i'' \<notin> set w" and "CHR ''k'' \<notin> set w"
  shows "ToLower rt s = w \<longleftrightarrow> casing_of w s"
proof (cases "isASCII s")
  case True
  then show ?thesis
    using casing_of_iff [OF assms(2)] by (simp add: ToLower_def)
next
  case False
  have "isASCII w"
    using assms(2) by (induction w) (auto simp: isASCII_def isLowerVerb_def Let_def)
  then have "lower_other rt s \<noteq> w"
    using lower_other_not_word assms False by blast
  then show ?thesis
    using False casing_of_iff [OF assms(2)] by (simp add: ToLower_def)
qed

lemma ToLower_error: "unicode_lower_ok rt \<Longrightarrow> ToLower rt s = ''error'' \<longleftrightarrow> casing_of ''error'' s"
  by (rule ToLower_word) (simp_all add: isLowerVerb_def)

lemma ToLower_debug: "unicode_lower_ok rt \<Longrightarrow> ToLower rt s = ''debug'' \<longleftrightarrow> casing_of ''debug'' s"
  by (rule ToLower_word) (simp_all add: isLowerVerb_def)

lemma casing_of_length: "casing_of w s \<Longrightarrow> length s = length w"
  by (simp add: casing_of_def list_all2_lengthD)

lemma NewLogger_Level:
  "Level (loggers (fst (NewLogger rt h)) (snd (NewLogger rt h))) =
     getLevel rt (case environ rt ''LOG_LEVEL'' of None \<Rightarrow> [] | Some v \<Rightarrow> v)"
  by (simp add: NewLogger_def LookupEnv_def Getenv_def alloc_def Let_def split: option.splits)

lemma getLevel_empty: "getLevel rt [] = InfoLevel"
  by (simp add: getLevel_def ToLower_def isASCII_def)

lemma rt0_unicode: "unicode_lower_ok rt0"
  by (auto simp: unicode_lower_ok_def rt0_def isASCII_def list_all_iff not_less)

text \<open>
  C2. \<open>getLevel\<close> is a total function of its string and has no error result: it gives
  ERROR for every casing of \<open>error\<close>, DEBUG for every casing of \<open>debug\<close>, and INFO for
  every other string, the casings of \<open>info\<close> and the empty string among them. The logger
  that \<open>NewLogger\<close> makes has the level of the value of \<open>LOG_LEVEL\<close>, the empty string
  when the variable is unset, hence INFO then.
\<close>

theorem getLevel_case_insensitive:
  assumes "unicode_lower_ok rt"
  shows "getLevel rt s =
           (if casing_of ''error'' s then ErrorLevel
            else if casing_of ''debug'' s then DebugLevel
            else InfoLevel)
    \<and> (casing_of ''info'' s \<longrightarrow> getLevel rt s = InfoLevel)
    \<and> getLevel rt [] = InfoLevel
    \<and> Level (loggers (fst (NewLogger rt h)) (snd (NewLogger rt h))) =
        getLevel rt (case environ rt ''LOG_LEVEL'' of None \<Rightarrow> [] | Some v \<Rightarrow> v)
    \<and> (environ rt ''LOG_LEVEL'' = None \<longrightarrow>
         Level (loggers (fst (NewLogger rt h)) (snd (NewLogger rt h))) = InfoLevel)"
proof -
  have g: "getLevel rt s =
           (if casing_of ''error'' s then ErrorLevel
            else if casing_of ''debug'' s then DebugLevel
            else InfoLevel)"
    using ToLower_error [OF assms, of s] ToLower_debug [OF assms, of s]
    by (simp add: getLevel_def Let_def)
  have i: "getLevel rt s = InfoLevel" if "casing_of ''info'' s"
  proof -
    have "length s = 4"
      using casing_of_length [OF that] by simp
    then have "\<not> casing_of ''error'' s" "\<not> casing_of ''debug'' s"
      using casing_of_length by fastforce+
    then show ?thesis
      using g by simp
  qed
  have n: "Level (loggers (fst (NewLogger rt h)) (snd (NewLogger rt h))) = InfoLevel"
    if "environ rt ''LOG_LEVEL'' = None"
    using that by (simp add: NewLogger_Level getLevel_empty)
  from g i n getLevel_empty NewLogger_Level show ?thesis
    by blast
qed

theorem getLevel_case_insensitive_witness:
  "unicode_lower_ok rt0
   \<and> getLevel rt0 ''ERROR'' = ErrorLevel
   \<and> getLevel rt0 ''Debug'' = DebugLevel
   \<and> getLevel rt0 ''iNfO'' = InfoLevel
   \<and> getLevel rt0 ''bogus'' = InfoLevel
   \<and> environ rt0 ''LOG_LEVEL'' = None
   \<and> Level (loggers (fst (NewLogger rt0 heap0)) (snd (NewLogger rt0 heap0))) = InfoLevel"
proof -
  have c: "casing_of ''error'' ''ERROR''" "\<not> casing_of ''error'' ''Debug''"
    "casing_of ''debug'' ''Debug''" "casing_of ''info'' ''iNfO''"
    "\<not> casing_of ''error'' ''bogus''" "\<not> casing_of ''debug'' ''bogus''"
    by code_simp+
  have e: "environ rt0 ''LOG_LEVEL'' = None"
    by (simp add: rt0_def)
  have "getLevel rt0 ''ERROR'' = ErrorLevel"
    using getLevel_case_insensitive [OF rt0_unicode, of "''ERROR''" heap0] c by simp
  moreover have "getLevel rt0 ''Debug'' = DebugLevel"
    using getLevel_case_insensitive [OF rt0_unicode, of "''Debug''" heap0] c by simp
  moreover have "getLevel rt0 ''iNfO'' = InfoLevel"
    using getLevel_case_insensitive [OF rt0_unicode, of "''iNfO''" heap0] c by blast
  moreover have "getLevel rt0 ''bogus'' = InfoLevel"
    using getLevel_case_insensitive [OF rt0_unicode, of "''bogus''" heap0] c by simp
  moreover have "Level (loggers (fst (NewLogger rt0 heap0)) (snd (NewLogger rt0 heap0))) = InfoLevel"
    using getLevel_case_insensitive [OF rt0_unicode, of "[]" heap0] e by blast
  ultimately show ?thesis
    using rt0_unicode e by blast
qed

section \<open>Deriving loggers\<close>

lemma suffix_loop:
  "foldl (\<lambda>c (k, v). c @ '' '' @ k @ ''='' @ v) c kvs = c @ suffix_of kvs"
  by (induction kvs arbitrary: c) (auto simp: suffix_of_def)

lemma context_loop:
  "foldl (\<lambda>context (k, v). Sprintf rt ''%s %s=%s'' [AString context, AString k, AString v])
     c kvs = c @ suffix_of kvs"
proof -
  have "(\<lambda>context (k, v). Sprintf rt ''%s %s=%s'' [AString context, AString k, AString v]) =
      (\<lambda>c (k, v). c @ '' '' @ k @ ''='' @ v)"
    by (simp add: fun_eq_iff Sprintf_kv)
  then show ?thesis
    using suffix_loop by simp
qed

lemma WithContext_eq:
  assumes "l < nextp h"
  shows "WithContext rt h l m =
     (h\<lparr>loggers := (loggers h)(nextp h := (loggers h l)
          \<lparr>contextMessage := contextMessage (loggers h l) @ suffix_of (mapiter rt m)\<rparr>),
        nextp := Suc (nextp h)\<rparr>, nextp h)"
proof -
  have "l \<noteq> nextp h"
    using assms by simp
  then show ?thesis
    by (simp add: WithContext_def clone_def alloc_def Let_def context_loop)
qed

lemma log_sinks_cong:
  "loggers h' l = loggers h l \<Longrightarrow> sinks h' = sinks h \<Longrightarrow>
     sinks (log rt h' l lvl s) = sinks (log rt h l lvl s)"
  by (simp add: log_sinks)

lemma severity_calls_sinks_cong:
  assumes "loggers h' l = loggers h l" and "sinks h' = sinks h"
  shows "map (\<lambda>(S, x). sinks x) (severity_calls rt h' l s f a) =
         map (\<lambda>(S, x). sinks x) (severity_calls rt h l s f a)"
  using log_sinks_cong [OF assms]
  by (simp add: severity_calls_def Error_def Errorf_def Info_def Infof_def Debug_def
        Debugf_def Let_def)

lemma visits_single:
  assumes "visits [k \<mapsto> v] kvs"
  shows "kvs = [(k, v)]"
proof -
  have d: "distinct (map fst kvs)" and m: "map_of kvs = [k \<mapsto> v]"
    using assms by (simp_all add: visits_def)
  have "Map.graph [k \<mapsto> v] = {(k, v)}"
    by (auto simp: Map.graph_def split: if_splits)
  then have s: "set kvs = {(k, v)}"
    using graph_map_of_if_distinct_dom [OF d] by (simp only: m)
  have dk: "distinct kvs"
    using d by (rule distinct_map [THEN iffD1, THEN conjunct1])
  show ?thesis
  proof (cases kvs)
    case Nil
    with s show ?thesis
      by simp
  next
    case (Cons x xs)
    with s have x: "x = (k, v)" and "set xs \<subseteq> {(k, v)}"
      by auto
    moreover have "x \<notin> set xs"
      using dk Cons by simp
    ultimately have "xs = []"
      by (cases xs) auto
    with x Cons show ?thesis
      by simp
  qed
qed

lemma visits_set: "visits m kvs \<Longrightarrow> set kvs = Map.graph m"
  using graph_map_of_if_distinct_dom by (auto simp: visits_def)

lemma log_line_ends_with_context:
  assumes "val lvl \<le> val (Level (loggers h l))"
  shows "\<exists>body. wrote h (log rt h l lvl s) (sink (loggers h l))
           [endLine (body @ contextMessage (loggers h l))]"
proof -
  let ?tl = "''timestamp='' @ now rt @ '' level='' @ name lvl @ '' ''"
  let ?body = "formatHeader rt ?tl (flag (sinks h (sink (loggers h l)))) @
                 ''msg='' @ printArg rt s CHR ''q''"
  have "wrote h (log rt h l lvl s) (sink (loggers h l))
      [endLine (?body @ contextMessage (loggers h l))]"
    unfolding wrote_def log_sinks using assms by simp
  then show ?thesis
    by blast
qed

lemma WithContext_A: "WithContext rtA heap1 0 [''a'' \<mapsto> ''1''] = (heapA, 1)"
  by (simp add: heapA_def WithContext_eq heap1_nextp)

lemma heapA_nextp: "nextp heapA = 2"
  by (simp add: heapA_def WithContext_eq heap1_nextp)

lemma WithContext_B: "WithContext rtB heapA 1 [''b'' \<mapsto> ''2''] = (heapB, 2)"
  by (simp add: heapB_def WithContext_eq heapA_nextp)

lemma visits_A: "visits [''a'' \<mapsto> ''1''] (mapiter rtA [''a'' \<mapsto> ''1''])"
  by (simp add: visits_def rtA_def)

lemma visits_B: "visits [''b'' \<mapsto> ''2''] (mapiter rtB [''b'' \<mapsto> ''2''])"
  by (simp add: visits_def rtB_def)

lemma heapB_sink: "sinks heapB 0 = \<lparr>prefix = [], flag = 0, out = []\<rparr>"
  by (simp add: heapB_def heapA_def WithContext_eq heap1_nextp heap1_sink)

text \<open>
  C3. For every allocated logger \<open>l\<close> and every map \<open>m\<close>, \<open>WithContext\<close> and
  \<open>WithSource\<close> leave the logger at \<open>l\<close> as it was, its context suffix included (empty if
  it was empty), leave every sink as it was and return another address; whichever of the
  six emission methods is then called on \<open>l\<close>, the sinks end up exactly as they would
  have without the derivation.
\<close>

theorem derive_keeps_original:
  assumes "l < nextp h"
    and "(h', c) \<in> {WithContext rt h l m, WithSource rt h l}"
  shows "loggers h' l = loggers h l
    \<and> sinks h' = sinks h
    \<and> c \<noteq> l
    \<and> (contextMessage (loggers h l) = [] \<longrightarrow> contextMessage (loggers h' l) = [])
    \<and> map (\<lambda>(S, x). sinks x) (severity_calls rt' h' l s f a) =
        map (\<lambda>(S, x). sinks x) (severity_calls rt' h l s f a)"
proof -
  from assms(2) obtain m' where "(h', c) = WithContext rt h l m'"
    by (auto simp: WithSource_def Let_def)
  then have h': "h' = h\<lparr>loggers := (loggers h)(nextp h := (loggers h l)
          \<lparr>contextMessage := contextMessage (loggers h l) @ suffix_of (mapiter rt m')\<rparr>),
        nextp := Suc (nextp h)\<rparr>" and c: "c = nextp h"
    using WithContext_eq [OF assms(1)] by simp_all
  have ne: "l \<noteq> nextp h"
    using assms(1) by simp
  have lg: "loggers h' l = loggers h l"
    using ne by (simp add: h')
  have sk: "sinks h' = sinks h"
    by (simp add: h')
  from lg sk c ne severity_calls_sinks_cong [OF lg sk] show ?thesis
    by simp
qed

theorem derive_keeps_original_witness:
  \<open>0 < nextp heap1
   \<and> (heapA, 1) \<in> {WithContext rtA heap1 0 [''a'' \<mapsto> ''1''], WithSource rtA heap1 0}
   \<and> loggers heapA 0 = loggers heap1 0
   \<and> contextMessage (loggers heapA 0) = []
   \<and> sinks (Info rt0 heapA 0 (AString ''hi'')) = sinks (Info rt0 heap1 0 (AString ''hi''))
   \<and> out (sinks (Info rt0 heapA 0 (AString ''hi'')) 0) =
       [''timestamp=2025-01-02T03:04:05 level=INFO msg="hi"'' @ [CHR 0x0A]]\<close>
proof -
  have n: "0 < nextp heap1"
    by (simp add: heap1_nextp)
  have m: "(heapA, 1) \<in> {WithContext rtA heap1 0 [''a'' \<mapsto> ''1''], WithSource rtA heap1 0}"
    by (simp add: WithContext_A)
  note t = derive_keeps_original [OF n m, of rt0 "AString ''hi''" "''n=%d''" "[AInt 1]"]
  have k: "loggers heapA 0 = loggers heap1 0"
    using t by blast
  have e: "contextMessage (loggers heapA 0) = []"
    using t by (simp add: heap1_logger)
  have s: "sinks (Info rt0 heapA 0 (AString ''hi'')) = sinks (Info rt0 heap1 0 (AString ''hi''))"
    using t by (simp add: severity_calls_def)
  have \<open>out (sinks (Info rt0 heap1 0 (AString ''hi'')) 0) =
       [''timestamp=2025-01-02T03:04:05 level=INFO msg="hi"'' @ [CHR 0x0A]]\<close>
    by (simp add: Info_def log_sinks heap1_logger heap1_sink InfoLevel_def rt0_def
          formatHeader_def printArg_def isASCII_def Quote_def escapeByte_def endLine_def)
  with n m k e s show ?thesis
    by simp
qed

text \<open>
  C4. For every allocated logger \<open>l\<close>, \<open>WithContext\<close> returns a new logger with the
  threshold and the sink of \<open>l\<close>, whose context suffix is that of \<open>l\<close> followed by
  \<open>" k=v"\<close> for every entry of the map, in the order the loop visits them; a map with
  one entry leaves one order. Every line the new logger emits ends with its suffix. On a
  logger with no context, deriving \<open>a=1\<close> gives the suffix \<open>" a=1"\<close>, and deriving
  \<open>b=2\<close> from the result gives \<open>" a=1 b=2"\<close>.
\<close>

theorem WithContext_suffix:
  assumes "l < nextp h"
    and "visits m (mapiter rt m)"
    and "WithContext rt h l m = (h', c)"
  shows "Level (loggers h' c) = Level (loggers h l)
    \<and> sink (loggers h' c) = sink (loggers h l)
    \<and> contextMessage (loggers h' c) = contextMessage (loggers h l) @ suffix_of (mapiter rt m)
    \<and> set (mapiter rt m) = Map.graph m
    \<and> c = nextp h \<and> nextp h' = Suc c
    \<and> (\<forall>k v. m = [k \<mapsto> v] \<longrightarrow>
          contextMessage (loggers h' c) = contextMessage (loggers h l) @ '' '' @ k @ ''='' @ v)
    \<and> (\<forall>S h2. (S, h2) \<in> set (severity_calls rt' h' c s f a)
          \<and> val S \<le> val (Level (loggers h l)) \<longrightarrow>
          (\<exists>body. wrote h' h2 (sink (loggers h l))
             [endLine (body @ contextMessage (loggers h' c))]))"
proof -
  let ?ctx = "contextMessage (loggers h l) @ suffix_of (mapiter rt m)"
  have h': "h' = h\<lparr>loggers := (loggers h)(nextp h := (loggers h l)\<lparr>contextMessage := ?ctx\<rparr>),
        nextp := Suc (nextp h)\<rparr>" and c: "c = nextp h"
    using WithContext_eq [OF assms(1), of rt m] assms(3) by simp_all
  have lc: "loggers h' c = (loggers h l)\<lparr>contextMessage := ?ctx\<rparr>"
    by (simp add: h' c)
  have lv: "Level (loggers h' c) = Level (loggers h l)"
    and sk: "sink (loggers h' c) = sink (loggers h l)"
    and cm: "contextMessage (loggers h' c) = ?ctx"
    by (simp_all add: lc)
  have np: "nextp h' = Suc c"
    by (simp add: h' c)
  have single: "contextMessage (loggers h' c) =
      contextMessage (loggers h l) @ '' '' @ k @ ''='' @ v" if "m = [k \<mapsto> v]" for k v
  proof -
    have "mapiter rt m = [(k, v)]"
      using assms(2) that visits_single by blast
    then show ?thesis
      by (simp add: cm suffix_of_def)
  qed
  have line: "\<exists>body. wrote h' h2 (sink (loggers h l))
      [endLine (body @ contextMessage (loggers h' c))]"
    if "(S, h2) \<in> set (severity_calls rt' h' c s f a)"
      and "val S \<le> val (Level (loggers h l))" for S h2
  proof -
    from severity_calls_log [OF that(1)] obtain x where "h2 = log rt' h' c S x"
      by blast
    moreover have "val S \<le> val (Level (loggers h' c))"
      using that(2) lv by simp
    ultimately show ?thesis
      using log_line_ends_with_context [of S h' c rt' x] sk by simp
  qed
  from lv sk cm visits_set [OF assms(2)] c np single line show ?thesis
    by blast
qed

theorem WithContext_suffix_witness:
  \<open>0 < nextp heap1
   \<and> visits [''a'' \<mapsto> ''1''] (mapiter rtA [''a'' \<mapsto> ''1''])
   \<and> WithContext rtA heap1 0 [''a'' \<mapsto> ''1''] = (heapA, 1)
   \<and> contextMessage (loggers heapA 1) = '' a=1''
   \<and> 1 < nextp heapA
   \<and> visits [''b'' \<mapsto> ''2''] (mapiter rtB [''b'' \<mapsto> ''2''])
   \<and> WithContext rtB heapA 1 [''b'' \<mapsto> ''2''] = (heapB, 2)
   \<and> contextMessage (loggers heapB 2) = '' a=1 b=2''
   \<and> Level (loggers heapB 2) = InfoLevel
   \<and> sink (loggers heapB 2) = 0
   \<and> out (sinks (Info rt0 heapB 2 (AString ''hi'')) 0) =
       [''timestamp=2025-01-02T03:04:05 level=INFO msg="hi" a=1 b=2'' @ [CHR 0x0A]]\<close>
proof -
  have n1: "0 < nextp heap1" and n2: "1 < nextp heapA"
    by (simp_all add: heap1_nextp heapA_nextp)
  note A = WithContext_suffix [OF n1 visits_A WithContext_A, of rt0 "AString ''hi''" "[]" "[]"]
  note B = WithContext_suffix [OF n2 visits_B WithContext_B, of rt0 "AString ''hi''" "[]" "[]"]
  from A have "contextMessage (loggers heapA 1) =
      contextMessage (loggers heap1 0) @ '' '' @ ''a'' @ ''='' @ ''1''"
    by blast
  then have cA: "contextMessage (loggers heapA 1) = '' a=1''"
    by (simp add: heap1_logger)
  from B have "contextMessage (loggers heapB 2) =
      contextMessage (loggers heapA 1) @ '' '' @ ''b'' @ ''='' @ ''2''"
    by blast
  then have cB: "contextMessage (loggers heapB 2) = '' a=1 b=2''"
    unfolding cA by simp
  from A have lA: "Level (loggers heapA 1) = Level (loggers heap1 0)"
    and sA: "sink (loggers heapA 1) = sink (loggers heap1 0)"
    by blast+
  from B have "Level (loggers heapB 2) = Level (loggers heapA 1)"
    and "sink (loggers heapB 2) = sink (loggers heapA 1)"
    by blast+
  then have lB: "Level (loggers heapB 2) = InfoLevel" and sB: "sink (loggers heapB 2) = 0"
    unfolding lA sA by (simp_all add: heap1_logger)
  have \<open>out (sinks (Info rt0 heapB 2 (AString ''hi'')) 0) =
       [''timestamp=2025-01-02T03:04:05 level=INFO msg="hi" a=1 b=2'' @ [CHR 0x0A]]\<close>
    by (simp add: Info_def log_sinks lB sB cB heapB_sink InfoLevel_def rt0_def
          formatHeader_def printArg_def isASCII_def Quote_def escapeByte_def endLine_def)
  with n1 n2 visits_A visits_B WithContext_A WithContext_B cA cB lB sB show ?thesis
    by blast
qed

section \<open>Formatted variants\<close>

lemma doPrintf_interpolate:
  "fits ps (drop n a) \<Longrightarrow> doPrintf rt (format_of ps) a n = interpolate rt ps (drop n a)"
proof (induction ps arbitrary: n)
  case Nil
  then show ?case
    by simp
next
  case (Cons p ps)
  show ?case
  proof (cases p)
    case (Lit t)
    then show ?thesis
      using Cons by (simp add: doPrintf_literal)
  next
    case (Verb v)
    with Cons.prems obtain x xs where d: "drop n a = x # xs"
      by (cases "drop n a") auto
    then have n: "n < length a"
      by (cases "n < length a") auto
    have x: "a ! n = x" and xs: "drop (Suc n) a = xs"
      using Cons_nth_drop_Suc [OF n] d by simp_all
    have "fits ps (drop (Suc n) a)" and "isLowerVerb v"
      using Cons.prems Verb d xs by simp_all
    then show ?thesis
      using Cons.IH [of "Suc n"] Verb d n x xs by simp
  next
    case Percent
    have "\<not> isLowerVerb CHR ''%''"
      by (simp add: isLowerVerb_def)
    then show ?thesis
      using Cons Percent by simp
  qed
qed

lemma Sprintf_interpolate: "fits ps a \<Longrightarrow> Sprintf rt (format_of ps) a = interpolate rt ps a"
  using doPrintf_interpolate [of ps 0 a rt] by (simp add: Sprintf_def)

lemma count3: "Sprintf rt ''count=%d'' [AInt 3] = ''count=3''"
  by code_simp

lemma quoted_count3: \<open>printArg rt (AString ''count=3'') CHR ''q'' = ''"count=3"''\<close>
  by code_simp

lemma log_wrote_line:
  assumes "val lvl \<le> val (Level (loggers h l))" and "flag (sinks h (sink (loggers h l))) = 0"
  shows "wrote h (log rt h l lvl s) (sink (loggers h l))
     [endLine (''timestamp='' @ now rt @ '' level='' @ name lvl @ '' msg='' @
        printArg rt s CHR ''q'' @ contextMessage (loggers h l))]"
  unfolding wrote_def log_sinks using assms by (simp add: formatHeader_def)

lemma formatted_calls_log:
  "(S, h') \<in> set [(ErrorLevel, Errorf rt h l f a), (InfoLevel, Infof rt h l f a),
      (DebugLevel, Debugf rt h l f a)] \<Longrightarrow>
   h' = log rt h l S (AString (Sprintf rt f a))"
  by (auto simp: Errorf_def Infof_def Debugf_def Sprintf_s)

text \<open>
  C8. \<open>Errorf\<close>, \<open>Infof\<close> and \<open>Debugf\<close> format the operands into the format, by positional
  interpolation when the format fits its operands, and emit the result as a string
  message: when the threshold lets the severity through (flags 0), the line is the
  prefix, then \<open>msg=\<close> and the formatted string under \<open>%q\<close>, quoted by \<open>Quote\<close> when it is
  ASCII, then the context suffix. For \<open>"count=%d"\<close> and 3 the quoted message is
  \<open>"count=3"\<close>.
\<close>

theorem formatted_variants:
  assumes "(S, h') \<in> set [(ErrorLevel, Errorf rt h l f a), (InfoLevel, Infof rt h l f a),
      (DebugLevel, Debugf rt h l f a)]"
    and "val S \<le> val (Level (loggers h l))"
    and "flag (sinks h (sink (loggers h l))) = 0"
  shows \<open>h' = log rt h l S (AString (Sprintf rt f a))
    \<and> (fits ps a \<and> f = format_of ps \<longrightarrow> Sprintf rt f a = interpolate rt ps a)
    \<and> wrote h h' (sink (loggers h l))
        [endLine (''timestamp='' @ now rt @ '' level='' @ name S @ '' msg='' @
           printArg rt (AString (Sprintf rt f a)) CHR ''q'' @ contextMessage (loggers h l))]
    \<and> (isASCII (Sprintf rt f a) \<longrightarrow>
         printArg rt (AString (Sprintf rt f a)) CHR ''q'' = Quote (Sprintf rt f a))
    \<and> (f = ''count=%d'' \<and> a = [AInt 3] \<longrightarrow>
         printArg rt (AString (Sprintf rt f a)) CHR ''q'' = ''"count=3"'')\<close>
proof -
  have h': "h' = log rt h l S (AString (Sprintf rt f a))"
    using assms(1) by (rule formatted_calls_log)
  have w: "wrote h h' (sink (loggers h l))
        [endLine (''timestamp='' @ now rt @ '' level='' @ name S @ '' msg='' @
           printArg rt (AString (Sprintf rt f a)) CHR ''q'' @ contextMessage (loggers h l))]"
    unfolding h' using assms(2,3) by (rule log_wrote_line)
  have q: "printArg rt (AString (Sprintf rt f a)) CHR ''q'' = Quote (Sprintf rt f a)"
    if "isASCII (Sprintf rt f a)"
    using that by (simp add: printArg_def)
  have i: "Sprintf rt f a = interpolate rt ps a" if "fits ps a" and "f = format_of ps"
    using that Sprintf_interpolate by simp
  have c: \<open>printArg rt (AString (Sprintf rt f a)) CHR ''q'' = ''"count=3"''\<close>
    if "f = ''count=%d''" and "a = [AInt 3]"
    unfolding that count3 by (rule quoted_count3)
  from h' w q i c show ?thesis
    by blast
qed

theorem formatted_variants_witness:
  \<open>(InfoLevel, Infof rt0 heap1 0 ''count=%d'' [AInt 3])
      \<in> set [(ErrorLevel, Errorf rt0 heap1 0 ''count=%d'' [AInt 3]),
              (InfoLevel, Infof rt0 heap1 0 ''count=%d'' [AInt 3]),
              (DebugLevel, Debugf rt0 heap1 0 ''count=%d'' [AInt 3])]
   \<and> val InfoLevel \<le> val (Level (loggers heap1 0))
   \<and> flag (sinks heap1 (sink (loggers heap1 0))) = 0
   \<and> fits [Lit ''count='', Verb CHR ''d''] [AInt 3]
   \<and> ''count=%d'' = format_of [Lit ''count='', Verb CHR ''d'']
   \<and> Sprintf rt0 ''count=%d'' [AInt 3] = interpolate rt0 [Lit ''count='', Verb CHR ''d''] [AInt 3]
   \<and> interpolate rt0 [Lit ''count='', Verb CHR ''d''] [AInt 3] = ''count=3''
   \<and> wrote heap1 (Infof rt0 heap1 0 ''count=%d'' [AInt 3]) 0
        [''timestamp=2025-01-02T03:04:05 level=INFO msg="count=3"'' @ [CHR 0x0A]]\<close>
proof -
  have m: "(InfoLevel, Infof rt0 heap1 0 ''count=%d'' [AInt 3])
      \<in> set [(ErrorLevel, Errorf rt0 heap1 0 ''count=%d'' [AInt 3]),
              (InfoLevel, Infof rt0 heap1 0 ''count=%d'' [AInt 3]),
              (DebugLevel, Debugf rt0 heap1 0 ''count=%d'' [AInt 3])]"
    by simp
  have g: "val InfoLevel \<le> val (Level (loggers heap1 0))"
    by (simp add: heap1_logger)
  have z: "flag (sinks heap1 (sink (loggers heap1 0))) = 0"
    by (simp add: heap1_logger heap1_sink)
  have fi: "fits [Lit ''count='', Verb CHR ''d''] [AInt 3]"
    by (simp add: isLowerVerb_def)
  have fo: "''count=%d'' = format_of [Lit ''count='', Verb CHR ''d'']"
    by simp
  have v: "interpolate rt0 [Lit ''count='', Verb CHR ''d''] [AInt 3] = ''count=3''"
    by code_simp
  note t = formatted_variants [OF m g z, of "[Lit ''count='', Verb CHR ''d'']"]
  from t fi fo have e: "Sprintf rt0 ''count=%d'' [AInt 3] =
      interpolate rt0 [Lit ''count='', Verb CHR ''d''] [AInt 3]"
    by blast
  from t have q: \<open>printArg rt0 (AString (Sprintf rt0 ''count=%d'' [AInt 3])) CHR ''q'' = ''"count=3"''\<close>
    by blast
  from t have "wrote heap1 (Infof rt0 heap1 0 ''count=%d'' [AInt 3]) (sink (loggers heap1 0))
        [endLine (''timestamp='' @ now rt0 @ '' level='' @ name InfoLevel @ '' msg='' @
           printArg rt0 (AString (Sprintf rt0 ''count=%d'' [AInt 3])) CHR ''q'' @
           contextMessage (loggers heap1 0))]"
    by blast
  then have \<open>wrote heap1 (Infof rt0 heap1 0 ''count=%d'' [AInt 3]) 0
        [''timestamp=2025-01-02T03:04:05 level=INFO msg="count=3"'' @ [CHR 0x0A]]\<close>
    unfolding q by (simp add: heap1_logger rt0_def InfoLevel_def endLine_def)
  with m g z fi fo e v show ?thesis
    by blast
qed

section \<open>GetCaller\<close>

lemma set_tl_subset: "set (tl xs) \<subseteq> set xs"
  by (cases xs) auto

lemma Split_no_sep:
  assumes "sep \<notin> set s"
  shows "Split s sep = [s]"
proof -
  have d: "dropWhile (\<lambda>c. c \<noteq> sep) s = []"
    using assms by auto
  show ?thesis
    by (subst Split.simps) (simp only: d list.simps)
qed

lemma Split_sep:
  assumes "sep \<in> set s"
  shows "Split s sep =
     takeWhile (\<lambda>c. c \<noteq> sep) s # Split (tl (dropWhile (\<lambda>c. c \<noteq> sep) s)) sep"
proof -
  have "dropWhile (\<lambda>c. c \<noteq> sep) s \<noteq> []"
    using assms by auto
  then obtain x rest where "dropWhile (\<lambda>c. c \<noteq> sep) s = x # rest"
    by (cases "dropWhile (\<lambda>c. c \<noteq> sep) s") auto
  then show ?thesis
    by (subst Split.simps) simp
qed

lemma Split_nonempty: "Split s sep \<noteq> []"
  by (cases "sep \<in> set s") (simp_all add: Split_no_sep Split_sep)

lemma Split_hd: "hd (Split s sep) = takeWhile (\<lambda>c. c \<noteq> sep) s"
proof (cases "sep \<in> set s")
  case True
  then show ?thesis
    by (simp add: Split_sep)
next
  case False
  then have t: "takeWhile (\<lambda>c. c \<noteq> sep) s = s"
    by (intro takeWhile_eq_all_conv [THEN iffD2]) auto
  show ?thesis
    unfolding Split_no_sep [OF False] t by simp
qed

lemma Split_length_gt1: "1 < length (Split s sep) \<longleftrightarrow> sep \<in> set s"
proof (cases "sep \<in> set s")
  case True
  have "length (Split (tl (dropWhile (\<lambda>c. c \<noteq> sep) s)) sep) \<noteq> 0"
    using Split_nonempty by simp
  with True show ?thesis
    by (simp add: Split_sep)
next
  case False
  then show ?thesis
    by (simp add: Split_no_sep)
qed

lemma Split_second:
  assumes "sep \<in> set s"
  shows "Split s sep ! 1 = takeWhile (\<lambda>c. c \<noteq> sep) (tl (dropWhile (\<lambda>c. c \<noteq> sep) s))"
proof -
  have "Split s sep ! 1 = hd (Split (tl (dropWhile (\<lambda>c. c \<noteq> sep) s)) sep)"
    using Split_nonempty by (simp add: Split_sep [OF assms] hd_conv_nth)
  then show ?thesis
    by (simp add: Split_hd)
qed

lemma Split_second_subset:
  assumes "sep \<in> set s"
  shows "set (Split s sep ! 1) \<subseteq> set s"
proof -
  have "set (takeWhile (\<lambda>c. c \<noteq> sep) (tl (dropWhile (\<lambda>c. c \<noteq> sep) s)))
      \<subseteq> set (tl (dropWhile (\<lambda>c. c \<noteq> sep) s))"
    by (rule set_takeWhileD [THEN conjunct1, THEN subsetI]) 
  also have "\<dots> \<subseteq> set (dropWhile (\<lambda>c. c \<noteq> sep) s)"
    by (rule set_tl_subset)
  also have "\<dots> \<subseteq> set s"
    by (rule subsetI) (rule set_dropWhileD)
  finally show ?thesis
    unfolding Split_second [OF assms] .
qed

lemma Split_length: "length (Split s sep) = Suc (count_list s sep)"
proof (induction s sep rule: Split.induct)
  case (1 s sep)
  show ?case
  proof (cases "sep \<in> set s")
    case False
    then show ?thesis
      by (simp add: Split_no_sep)
  next
    case True
    let ?d = "dropWhile (\<lambda>c. c \<noteq> sep) s"
    from True have "?d \<noteq> []"
      by auto
    then obtain x rest where d: "?d = x # rest"
      by (cases ?d) auto
    then have x: "x = sep"
      using hd_dropWhile [of "\<lambda>c. c \<noteq> sep" s] by auto
    have "count_list (takeWhile (\<lambda>c. c \<noteq> sep) s) sep = 0"
      by (simp add: count_list_0_iff) (metis set_takeWhileD)
    moreover have "s = takeWhile (\<lambda>c. c \<noteq> sep) s @ ?d"
      by simp
    ultimately have "count_list s sep = count_list ?d sep"
      by (metis add_0 count_list_append)
    then have c: "count_list s sep = Suc (count_list rest sep)"
      by (simp add: d x)
    have "length (Split rest sep) = Suc (count_list rest sep)"
      using "1.IH" [OF d] .
    then show ?thesis
      using c d by (simp add: Split_sep [OF True])
  qed
qed

lemma GetCaller_ok:
  assumes "ok (Caller rt 1)"
  shows "GetCaller rt =
     (if CHR ''.'' \<in> set (FuncForPC_Name rt (pc (Caller rt 1)))
      then Inr (Split (FuncForPC_Name rt (pc (Caller rt 1))) CHR ''.'' ! 1)
      else Inl (IndexOutOfRange 1 1))"
  using assms Split_length_gt1 [of "FuncForPC_Name rt (pc (Caller rt 1))" "CHR ''.''"]
  by (simp add: GetCaller_def Let_def Split_no_sep)

lemma GetCaller_fail: "\<not> ok (Caller rt 1) \<Longrightarrow> GetCaller rt = Inr ''function name unknown''"
  by (simp add: GetCaller_def Let_def)

lemma rt0_caller: "ok (Caller rt0 1) \<and> FuncForPC_Name rt0 (pc (Caller rt0 1)) = ''main.run''"
  by (simp add: rt0_def)

lemma rtN_caller: "ok (Caller rtN 1) \<and> FuncForPC_Name rtN (pc (Caller rtN 1)) = []"
  by (simp add: rtN_def rt0_def)

lemma sentinel_has_space: "CHR '' '' \<in> set ''function name unknown''"
  by simp

text \<open>
  C10. When introspection succeeds, \<open>GetCaller\<close> indexes the dot-split of the qualified
  name at 1. The split has one component more than the name has dots, so the index is in
  bounds exactly when the name contains a dot: then the result is the component at 1;
  for a name with no dot the access is out of range and the call panics.
\<close>

theorem GetCaller_index:
  assumes "ok (Caller rt 1)"
  shows "GetCaller rt =
      (if CHR ''.'' \<in> set (FuncForPC_Name rt (pc (Caller rt 1)))
       then Inr (Split (FuncForPC_Name rt (pc (Caller rt 1))) CHR ''.'' ! 1)
       else Inl (IndexOutOfRange 1 1))
    \<and> length (Split (FuncForPC_Name rt (pc (Caller rt 1))) CHR ''.'') =
        Suc (count_list (FuncForPC_Name rt (pc (Caller rt 1))) CHR ''.'')
    \<and> (1 < length (Split (FuncForPC_Name rt (pc (Caller rt 1))) CHR ''.'')
         \<longleftrightarrow> CHR ''.'' \<in> set (FuncForPC_Name rt (pc (Caller rt 1))))"
  using GetCaller_ok [OF assms] Split_length Split_length_gt1 by blast

theorem GetCaller_index_witness:
  "ok (Caller rt0 1)
   \<and> FuncForPC_Name rt0 (pc (Caller rt0 1)) = ''main.run''
   \<and> GetCaller rt0 = Inr ''run''
   \<and> ok (Caller rtN 1)
   \<and> FuncForPC_Name rtN (pc (Caller rtN 1)) = []
   \<and> GetCaller rtN = Inl (IndexOutOfRange 1 1)"
proof -
  have s: "Split ''main.run'' CHR ''.'' ! 1 = ''run''"
    by code_simp
  have "GetCaller rt0 = Inr ''run''"
    using GetCaller_index [of rt0] rt0_caller s by simp
  moreover have "GetCaller rtN = Inl (IndexOutOfRange 1 1)"
    using GetCaller_index [of rtN] rtN_caller by simp
  ultimately show ?thesis
    using rt0_caller rtN_caller by blast
qed

text \<open>
  C9, as amended. Provided that the qualified name contains a dot whenever introspection
  succeeds, \<open>GetCaller\<close> raises no error: it returns \<open>"function name unknown"\<close> when
  introspection fails and the second component of the dot-split of the name when it
  succeeds. Its result is that sentinel exactly when introspection fails or the second
  component is itself that text, which no name without a space allows.
\<close>

theorem GetCaller_sentinel:
  assumes "ok (Caller rt 1) \<longrightarrow> CHR ''.'' \<in> set (FuncForPC_Name rt (pc (Caller rt 1)))"
  shows "(\<exists>r. GetCaller rt = Inr r)
    \<and> (\<not> ok (Caller rt 1) \<longrightarrow> GetCaller rt = Inr ''function name unknown'')
    \<and> (ok (Caller rt 1) \<longrightarrow>
         GetCaller rt = Inr (Split (FuncForPC_Name rt (pc (Caller rt 1))) CHR ''.'' ! 1))
    \<and> (GetCaller rt = Inr ''function name unknown'' \<longleftrightarrow>
         \<not> ok (Caller rt 1) \<or>
         Split (FuncForPC_Name rt (pc (Caller rt 1))) CHR ''.'' ! 1 = ''function name unknown'')
    \<and> (CHR '' '' \<notin> set (FuncForPC_Name rt (pc (Caller rt 1))) \<longrightarrow>
         (GetCaller rt = Inr ''function name unknown'' \<longleftrightarrow> \<not> ok (Caller rt 1)))"
proof (cases "ok (Caller rt 1)")
  case False
  then show ?thesis
    by (simp add: GetCaller_fail)
next
  case True
  let ?n = "FuncForPC_Name rt (pc (Caller rt 1))"
  have dot: "CHR ''.'' \<in> set ?n"
    using assms True by simp
  have g: "GetCaller rt = Inr (Split ?n CHR ''.'' ! 1)"
    using GetCaller_ok [OF True] dot by simp
  have "Split ?n CHR ''.'' ! 1 \<noteq> ''function name unknown''" if "CHR '' '' \<notin> set ?n"
  proof
    assume "Split ?n CHR ''.'' ! 1 = ''function name unknown''"
    then have "CHR '' '' \<in> set (Split ?n CHR ''.'' ! 1)"
      using sentinel_has_space by metis
    then show False
      using Split_second_subset [OF dot] that by blast
  qed
  then show ?thesis
    using True g by auto
qed

theorem GetCaller_sentinel_witness:
  "CHR ''.'' \<in> set (FuncForPC_Name rt0 (pc (Caller rt0 1)))
   \<and> CHR '' '' \<notin> set (FuncForPC_Name rt0 (pc (Caller rt0 1)))
   \<and> ok (Caller rt0 1)
   \<and> GetCaller rt0 = Inr (Split ''main.run'' CHR ''.'' ! 1)
   \<and> GetCaller rt0 \<noteq> Inr ''function name unknown''"
proof -
  have d: "CHR ''.'' \<in> set (FuncForPC_Name rt0 (pc (Caller rt0 1)))"
    and sp: "CHR '' '' \<notin> set (FuncForPC_Name rt0 (pc (Caller rt0 1)))"
    unfolding rt0_caller [THEN conjunct2] by simp_all
  have h: "ok (Caller rt0 1) \<longrightarrow> CHR ''.'' \<in> set (FuncForPC_Name rt0 (pc (Caller rt0 1)))"
    using d by simp
  from GetCaller_sentinel [OF h] rt0_caller sp
  have "GetCaller rt0 = Inr (Split ''main.run'' CHR ''.'' ! 1)"
    and "GetCaller rt0 \<noteq> Inr ''function name unknown''"
    by metis+
  with d sp rt0_caller show ?thesis
    by blast
qed

text \<open>
  C9 as stated fails where introspection succeeds on a name with no dot: the call
  panics on the index.
\<close>

theorem GetCaller_sentinel_counterexample:
  "ok (Caller rtN 1) \<and> GetCaller rtN = Inl (IndexOutOfRange 1 1)"
proof -
  have o: "ok (Caller rtN 1)"
    using rtN_caller by blast
  have "GetCaller rtN = Inl (IndexOutOfRange 1 1)"
    using GetCaller_ok [OF o, unfolded rtN_caller [THEN conjunct2]] by simp
  with o show ?thesis
    by blast
qed

end
